theory Spec2Isabelle
  imports Main "HOL-Library.Word"
begin

section \<open>Memory model\<close>

text \<open>
  The repository holds the container twice: \<^verbatim>\<open>single-linked-list/single-linked-list.h\<close>
  and an unnamed variant of the same header. Where the two differ, the function of the unnamed
  variant carries the suffix \<open>_p0\<close> here; a function without a suffix is that of
  \<^verbatim>\<open>single-linked-list.h\<close>, or is the same text in both.

  The container is a chain of heap nodes behind a dummy node
  \<^verbatim>\<open>head_\<close> that is a member of the list object. Iterators are raw node pointers, and an
  iterator may point at \<^verbatim>\<open>head_\<close> itself, so the list is modelled in an explicit store:
  a partial map from addresses to \<^verbatim>\<open>Node\<close> objects that holds the nodes made by
  \<^verbatim>\<open>new\<close> and the \<^verbatim>\<open>head_\<close> node of every live list alike. A list object is
  identified by its address; its \<^verbatim>\<open>head_\<close> is the node stored at that address and its
  \<^verbatim>\<open>size_\<close> is the entry of the map \<open>sizes\<close> at that address.

  Pointers and \<^verbatim>\<open>size_t\<close> are 64-bit words; \<^verbatim>\<open>++size_\<close> and \<^verbatim>\<open>--size_\<close> wrap.
  Isabelle reserves names that end in an underscore and the word \<^verbatim>\<open>value\<close>, so the members
  \<^verbatim>\<open>value\<close>, \<^verbatim>\<open>node_\<close>, \<^verbatim>\<open>size_\<close> appear as \<open>val\<close>, \<open>nodeptr\<close>, \<open>sizes\<close>.
\<close>

type_synonym addr = "64 word"
type_synonym size_t = "64 word"

definition nullptr :: addr where
  "nullptr = 0"

text \<open>\<^verbatim>\<open>struct Node { Type value; Node* next_node = nullptr; }\<close>\<close>

record 'a Node =
  val :: 'a
  next_node :: addr

text \<open>\<^verbatim>\<open>class BasicIterator { Node* node_ = nullptr; }\<close>; the mutable and the read-only
  iterator differ in the constness of what they yield only.\<close>

record BasicIterator =
  nodeptr :: addr

text \<open>
  The template parameter \<^verbatim>\<open>Type\<close>: what its default constructor leaves in
  \<^verbatim>\<open>head_.value\<close>, for which values its copy constructor throws, and its comparison operators.
\<close>

record 'a Type =
  default_value :: 'a
  copy_throws :: "'a \<Rightarrow> bool"
  op_eq :: "'a \<Rightarrow> 'a \<Rightarrow> bool"
  op_ne :: "'a \<Rightarrow> 'a \<Rightarrow> bool"
  op_lt :: "'a \<Rightarrow> 'a \<Rightarrow> bool"
  op_gt :: "'a \<Rightarrow> 'a \<Rightarrow> bool"

text \<open>
  The ways a call can end other than by returning: a failed \<^verbatim>\<open>assert\<close>, the use of a null
  pointer or of a pointer to no live object (undefined behaviour in C++, made a value here),
  and the two exceptions a \<^verbatim>\<open>new\<close>-expression can throw.
\<close>

datatype error = AssertionFailed | NullDereference | DanglingReference | BadAlloc | CopyThrew

text \<open>
  \<open>free_store\<close> lists the addresses \<^verbatim>\<open>operator new\<close> will hand out, in order; when it is
  empty, \<^verbatim>\<open>new\<close> throws \<^verbatim>\<open>std::bad_alloc\<close>.
\<close>

record 'a state =
  nodes :: "addr \<rightharpoonup> 'a Node"
  sizes :: "addr \<rightharpoonup> size_t"
  free_store :: "addr list"

text \<open>Reading through a node pointer: \<^verbatim>\<open>p->...\<close>.\<close>

definition load :: "'a state \<Rightarrow> addr \<Rightarrow> error + 'a Node" where
  "load s p =
     (if p = nullptr then Inl NullDereference
      else case nodes s p of None \<Rightarrow> Inl DanglingReference | Some n \<Rightarrow> Inr n)"

text \<open>The assignment \<^verbatim>\<open>p->next_node = q\<close>.\<close>

definition set_next_node :: "addr \<Rightarrow> addr \<Rightarrow> 'a state \<Rightarrow> error + 'a state" where
  "set_next_node p q s =
     (case load s p of
        Inl e \<Rightarrow> Inl e
      | Inr n \<Rightarrow> Inr (s\<lparr>nodes := (nodes s)(p \<mapsto> n\<lparr>next_node := q\<rparr>)\<rparr>))"

text \<open>\<^verbatim>\<open>++size_\<close> and \<^verbatim>\<open>--size_\<close> on the list at \<open>this\<close>.\<close>

definition inc_size :: "addr \<Rightarrow> 'a state \<Rightarrow> (error + unit) \<times> 'a state" where
  "inc_size this s =
     (case sizes s this of
        None \<Rightarrow> (Inl DanglingReference, s)
      | Some n \<Rightarrow> (Inr (), s\<lparr>sizes := (sizes s)(this \<mapsto> n + 1)\<rparr>))"

definition dec_size :: "addr \<Rightarrow> 'a state \<Rightarrow> (error + unit) \<times> 'a state" where
  "dec_size this s =
     (case sizes s this of
        None \<Rightarrow> (Inl DanglingReference, s)
      | Some n \<Rightarrow> (Inr (), s\<lparr>sizes := (sizes s)(this \<mapsto> n - 1)\<rparr>))"

text \<open>
  The expression \<^verbatim>\<open>new Node(value, next)\<close>: storage is taken from the free store, then the
  value is copied into it. When either step throws, nothing has changed (the storage goes back
  before the exception leaves the expression).
\<close>

definition new_Node :: "'a Type \<Rightarrow> 'a \<Rightarrow> addr \<Rightarrow> 'a state \<Rightarrow> (error + addr) \<times> 'a state" where
  "new_Node T v nxt s =
     (case free_store s of
        [] \<Rightarrow> (Inl BadAlloc, s)
      | a # fs \<Rightarrow>
          if copy_throws T v then (Inl CopyThrew, s)
          else (Inr a, s\<lparr>nodes := (nodes s)(a \<mapsto> \<lparr>val = v, next_node = nxt\<rparr>), free_store := fs\<rparr>))"

text \<open>\<^verbatim>\<open>delete p\<close>: the node is gone and its address is free again.\<close>

definition delete_Node :: "addr \<Rightarrow> 'a state \<Rightarrow> 'a state" where
  "delete_Node p s = s\<lparr>nodes := (nodes s)(p := None), free_store := p # free_store s\<rparr>"

section \<open>Iterators\<close>

text \<open>
  \<^verbatim>\<open>operator++\<close>, \<^verbatim>\<open>operator*\<close> and the comparison of two iterators. The unnamed variant
  of the header (suffix \<open>_p0\<close>) has no assertions; \<^verbatim>\<open>single-linked-list.h\<close> asserts
  \<^verbatim>\<open>node_\<close> first and is the same otherwise.
\<close>

definition operator_incr_p0 :: "'a state \<Rightarrow> BasicIterator \<Rightarrow> error + BasicIterator" where
  "operator_incr_p0 s it =
     (case load s (nodeptr it) of Inl e \<Rightarrow> Inl e | Inr n \<Rightarrow> Inr \<lparr>nodeptr = next_node n\<rparr>)"

definition operator_incr :: "'a state \<Rightarrow> BasicIterator \<Rightarrow> error + BasicIterator" where
  "operator_incr s it =
     (if nodeptr it = nullptr then Inl AssertionFailed else operator_incr_p0 s it)"

definition operator_deref_p0 :: "'a state \<Rightarrow> BasicIterator \<Rightarrow> error + 'a" where
  "operator_deref_p0 s it =
     (case load s (nodeptr it) of Inl e \<Rightarrow> Inl e | Inr n \<Rightarrow> Inr (val n))"

definition operator_deref :: "'a state \<Rightarrow> BasicIterator \<Rightarrow> error + 'a" where
  "operator_deref s it =
     (if nodeptr it = nullptr then Inl AssertionFailed else operator_deref_p0 s it)"

definition iterator_eq :: "BasicIterator \<Rightarrow> BasicIterator \<Rightarrow> bool" where
  "iterator_eq a b = (nodeptr a = nodeptr b)"

section \<open>The list\<close>

definition GetSize :: "addr \<Rightarrow> 'a state \<Rightarrow> error + size_t" where
  "GetSize this s =
     (case sizes s this of None \<Rightarrow> Inl DanglingReference | Some n \<Rightarrow> Inr n)"

definition IsEmpty :: "addr \<Rightarrow> 'a state \<Rightarrow> error + bool" where
  "IsEmpty this s =
     (case sizes s this of None \<Rightarrow> Inl DanglingReference | Some n \<Rightarrow> Inr (n = 0))"

text \<open>\<^verbatim>\<open>begin()\<close>, \<^verbatim>\<open>end()\<close> (and \<^verbatim>\<open>cbegin()\<close>, \<^verbatim>\<open>cend()\<close>, which read the same),
  \<^verbatim>\<open>before_begin()\<close>.\<close>

definition begin_it :: "addr \<Rightarrow> 'a state \<Rightarrow> error + BasicIterator" where
  "begin_it this s =
     (case load s this of Inl e \<Rightarrow> Inl e | Inr h \<Rightarrow> Inr \<lparr>nodeptr = next_node h\<rparr>)"

definition end_it :: BasicIterator where
  "end_it = \<lparr>nodeptr = nullptr\<rparr>"

definition before_begin :: "addr \<Rightarrow> BasicIterator" where
  "before_begin this = \<lparr>nodeptr = this\<rparr>"

text \<open>
  \<^verbatim>\<open>PushFront\<close>: \<^verbatim>\<open>head_.next_node = new Node(value, head_.next_node); ++size_;\<close>
\<close>

definition PushFront :: "'a Type \<Rightarrow> addr \<Rightarrow> 'a \<Rightarrow> 'a state \<Rightarrow> (error + unit) \<times> 'a state" where
  "PushFront T this v s =
     (case load s this of
        Inl e \<Rightarrow> (Inl e, s)
      | Inr h \<Rightarrow>
          (case new_Node T v (next_node h) s of
             (Inl e, s1) \<Rightarrow> (Inl e, s1)
           | (Inr new_node, s1) \<Rightarrow>
               (case set_next_node this new_node s1 of
                  Inl e \<Rightarrow> (Inl e, s1)
                | Inr s2 \<Rightarrow> inc_size this s2)))"

text \<open>
  \<^verbatim>\<open>InsertAfter\<close>: the new node is made first, with the successor of \<open>pos\<close> as its successor;
  then \<open>pos\<close> is linked to it and the size is incremented.
\<close>

definition InsertAfter_p0 ::
  "'a Type \<Rightarrow> addr \<Rightarrow> BasicIterator \<Rightarrow> 'a \<Rightarrow> 'a state \<Rightarrow> (error + BasicIterator) \<times> 'a state" where
  "InsertAfter_p0 T this pos v s =
     (case load s (nodeptr pos) of
        Inl e \<Rightarrow> (Inl e, s)
      | Inr pn \<Rightarrow>
          (case new_Node T v (next_node pn) s of
             (Inl e, s1) \<Rightarrow> (Inl e, s1)
           | (Inr new_node, s1) \<Rightarrow>
               (case set_next_node (nodeptr pos) new_node s1 of
                  Inl e \<Rightarrow> (Inl e, s1)
                | Inr s2 \<Rightarrow>
                    (case inc_size this s2 of
                       (Inl e, s3) \<Rightarrow> (Inl e, s3)
                     | (Inr u, s3) \<Rightarrow> (Inr \<lparr>nodeptr = new_node\<rparr>, s3)))))"

definition InsertAfter ::
  "'a Type \<Rightarrow> addr \<Rightarrow> BasicIterator \<Rightarrow> 'a \<Rightarrow> 'a state \<Rightarrow> (error + BasicIterator) \<times> 'a state" where
  "InsertAfter T this pos v s =
     (if nodeptr pos = nullptr then (Inl AssertionFailed, s)
      else InsertAfter_p0 T this pos v s)"

text \<open>
  \<^verbatim>\<open>PopFront\<close>. The unnamed variant unlinks and deletes the first node unconditionally;
  \<^verbatim>\<open>single-linked-list.h\<close> does so under \<^verbatim>\<open>if(size_)\<close>.
\<close>

definition PopFront_p0 :: "addr \<Rightarrow> 'a state \<Rightarrow> (error + unit) \<times> 'a state" where
  "PopFront_p0 this s =
     (case load s this of
        Inl e \<Rightarrow> (Inl e, s)
      | Inr h \<Rightarrow>
          (let node_to_del = next_node h in
           case load s node_to_del of
             Inl e \<Rightarrow> (Inl e, s)
           | Inr d \<Rightarrow>
               (case set_next_node this (next_node d) s of
                  Inl e \<Rightarrow> (Inl e, s)
                | Inr s1 \<Rightarrow> dec_size this (delete_Node node_to_del s1))))"

definition PopFront :: "addr \<Rightarrow> 'a state \<Rightarrow> (error + unit) \<times> 'a state" where
  "PopFront this s =
     (case GetSize this s of
        Inl e \<Rightarrow> (Inl e, s)
      | Inr n \<Rightarrow> if n \<noteq> 0 then PopFront_p0 this s else (Inr (), s))"

text \<open>
  \<^verbatim>\<open>EraseAfter\<close>: unlinks and deletes the node after \<open>pos\<close> and returns an iterator to what
  follows \<open>pos\<close> then. \<^verbatim>\<open>single-linked-list.h\<close> asserts \<^verbatim>\<open>pos.node_\<close> and \<^verbatim>\<open>size_\<close>
  first.
\<close>

definition EraseAfter_p0 ::
  "addr \<Rightarrow> BasicIterator \<Rightarrow> 'a state \<Rightarrow> (error + BasicIterator) \<times> 'a state" where
  "EraseAfter_p0 this pos s =
     (case load s (nodeptr pos) of
        Inl e \<Rightarrow> (Inl e, s)
      | Inr pn \<Rightarrow>
          (let node_to_del = next_node pn in
           case load s node_to_del of
             Inl e \<Rightarrow> (Inl e, s)
           | Inr d \<Rightarrow>
               (case set_next_node (nodeptr pos) (next_node d) s of
                  Inl e \<Rightarrow> (Inl e, s)
                | Inr s1 \<Rightarrow>
                    (case dec_size this (delete_Node node_to_del s1) of
                       (Inl e, s2) \<Rightarrow> (Inl e, s2)
                     | (Inr u, s2) \<Rightarrow>
                         (case load s2 (nodeptr pos) of
                            Inl e \<Rightarrow> (Inl e, s2)
                          | Inr pn' \<Rightarrow> (Inr \<lparr>nodeptr = next_node pn'\<rparr>, s2))))))"

definition EraseAfter ::
  "addr \<Rightarrow> BasicIterator \<Rightarrow> 'a state \<Rightarrow> (error + BasicIterator) \<times> 'a state" where
  "EraseAfter this pos s =
     (if nodeptr pos = nullptr then (Inl AssertionFailed, s)
      else case GetSize this s of
        Inl e \<Rightarrow> (Inl e, s)
      | Inr n \<Rightarrow> if n = 0 then (Inl AssertionFailed, s) else EraseAfter_p0 this pos s)"

text \<open>
  \<^verbatim>\<open>Clear\<close>. The loop deletes node after node. \<^verbatim>\<open>single-linked-list.h\<close> sets the size
  to 0 after the loop; the unnamed variant decrements it once per deleted node. Both reset
  \<^verbatim>\<open>head_.next_node\<close> last. Every round deletes a live node, so the loop ends.
\<close>

definition set_size :: "addr \<Rightarrow> size_t \<Rightarrow> 'a state \<Rightarrow> error + 'a state" where
  "set_size this n s =
     (case sizes s this of
        None \<Rightarrow> Inl DanglingReference
      | Some m \<Rightarrow> Inr (s\<lparr>sizes := (sizes s)(this \<mapsto> n)\<rparr>))"

function Clear_loop :: "addr \<Rightarrow> 'a state \<Rightarrow> (error + unit) \<times> 'a state" where
  "Clear_loop node s =
     (if node = nullptr then (Inr (), s)
      else case load s node of
        Inl e \<Rightarrow> (Inl e, s)
      | Inr n \<Rightarrow> Clear_loop (next_node n) (delete_Node node s))"
  by pat_completeness auto
termination
  by (relation "measure (\<lambda>(node, s). card (dom (nodes s)))")
    (auto simp: load_def delete_Node_def intro!: card_Diff1_less split: option.splits if_splits)

definition Clear :: "addr \<Rightarrow> 'a state \<Rightarrow> (error + unit) \<times> 'a state" where
  "Clear this s =
     (case load s this of
        Inl e \<Rightarrow> (Inl e, s)
      | Inr h \<Rightarrow>
          (case Clear_loop (next_node h) s of
             (Inl e, s1) \<Rightarrow> (Inl e, s1)
           | (Inr u, s1) \<Rightarrow>
               (case set_size this 0 s1 of
                  Inl e \<Rightarrow> (Inl e, s1)
                | Inr s2 \<Rightarrow>
                    (case set_next_node this nullptr s2 of
                       Inl e \<Rightarrow> (Inl e, s2)
                     | Inr s3 \<Rightarrow> (Inr (), s3)))))"

function Clear_loop_p0 :: "addr \<Rightarrow> addr \<Rightarrow> 'a state \<Rightarrow> (error + unit) \<times> 'a state" where
  "Clear_loop_p0 this node s =
     (if node = nullptr then (Inr (), s)
      else case load s node of
        Inl e \<Rightarrow> (Inl e, s)
      | Inr n \<Rightarrow>
          (case dec_size this (delete_Node node s) of
             (Inl e, s1) \<Rightarrow> (Inl e, s1)
           | (Inr u, s1) \<Rightarrow> Clear_loop_p0 this (next_node n) s1))"
  by pat_completeness auto
termination
  by (relation "measure (\<lambda>(this, node, s). card (dom (nodes s)))")
    (auto simp: load_def delete_Node_def dec_size_def intro!: card_Diff1_less
      split: option.splits if_splits)

definition Clear_p0 :: "addr \<Rightarrow> 'a state \<Rightarrow> (error + unit) \<times> 'a state" where
  "Clear_p0 this s =
     (case load s this of
        Inl e \<Rightarrow> (Inl e, s)
      | Inr h \<Rightarrow>
          (case Clear_loop_p0 this (next_node h) s of
             (Inl e, s1) \<Rightarrow> (Inl e, s1)
           | (Inr u, s1) \<Rightarrow>
               (case set_next_node this nullptr s1 of
                  Inl e \<Rightarrow> (Inl e, s1)
                | Inr s2 \<Rightarrow> (Inr (), s2))))"

text \<open>
  Construction. The members are initialised first: \<^verbatim>\<open>head_\<close> by \<^verbatim>\<open>Node() = default\<close>
  (no successor) and \<^verbatim>\<open>size_\<close>. When the body of a constructor throws, the object never
  comes to life: its members are given up (\<open>release_object\<close>), and the nodes the body has
  made so far stay allocated, since no handler deletes them.
\<close>

definition init_members :: "'a Type \<Rightarrow> addr \<Rightarrow> size_t \<Rightarrow> 'a state \<Rightarrow> 'a state" where
  "init_members T this n s =
     s\<lparr>nodes := (nodes s)(this \<mapsto> \<lparr>val = default_value T, next_node = nullptr\<rparr>),
       sizes := (sizes s)(this \<mapsto> n)\<rparr>"

definition release_object :: "addr \<Rightarrow> 'a state \<Rightarrow> 'a state" where
  "release_object this s = s\<lparr>nodes := (nodes s)(this := None), sizes := (sizes s)(this := None)\<rparr>"

text \<open>\<^verbatim>\<open>SingleLinkedList() { size_ = 0; }\<close>\<close>

definition SingleLinkedList_default :: "'a Type \<Rightarrow> addr \<Rightarrow> 'a state \<Rightarrow> (error + unit) \<times> 'a state" where
  "SingleLinkedList_default T this s = (Inr (), init_members T this 0 s)"

text \<open>
  \<^verbatim>\<open>Construct(begin, end)\<close> over the values of an initializer list: \<open>node\<close> starts at
  \<^verbatim>\<open>&head_\<close>; each value gets a new node behind \<open>node\<close>, and \<open>node\<close> moves on to it.
\<close>

fun Construct_loop :: "'a Type \<Rightarrow> addr \<Rightarrow> 'a list \<Rightarrow> 'a state \<Rightarrow> (error + unit) \<times> 'a state" where
  "Construct_loop T node [] s = (Inr (), s)"
| "Construct_loop T node (v # vs) s =
     (case new_Node T v nullptr s of
        (Inl e, s1) \<Rightarrow> (Inl e, s1)
      | (Inr new_node, s1) \<Rightarrow>
          (case set_next_node node new_node s1 of
             Inl e \<Rightarrow> (Inl e, s1)
           | Inr s2 \<Rightarrow>
               (case load s2 node of
                  Inl e \<Rightarrow> (Inl e, s2)
                | Inr nd \<Rightarrow> Construct_loop T (next_node nd) vs s2)))"

definition Construct :: "'a Type \<Rightarrow> addr \<Rightarrow> 'a list \<Rightarrow> 'a state \<Rightarrow> (error + unit) \<times> 'a state" where
  "Construct T this vs s = Construct_loop T this vs s"

text \<open>\<^verbatim>\<open>SingleLinkedList(std::initializer_list<Type> values) : size_(values.size())\<close>\<close>

definition SingleLinkedList_init ::
  "'a Type \<Rightarrow> addr \<Rightarrow> 'a list \<Rightarrow> 'a state \<Rightarrow> (error + unit) \<times> 'a state" where
  "SingleLinkedList_init T this vs s =
     (case Construct T this vs (init_members T this (of_nat (length vs)) s) of
        (Inl e, s1) \<Rightarrow> (Inl e, release_object this s1)
      | (Inr u, s1) \<Rightarrow> (Inr (), s1))"

text \<open>
  The unnamed variant has the loop in the constructor, as
  \<^verbatim>\<open>for (const auto value : values)\<close>: each value is copied into the loop variable before
  the node is made.
\<close>

fun init_loop_p0 :: "'a Type \<Rightarrow> addr \<Rightarrow> 'a list \<Rightarrow> 'a state \<Rightarrow> (error + unit) \<times> 'a state" where
  "init_loop_p0 T node [] s = (Inr (), s)"
| "init_loop_p0 T node (v # vs) s =
     (if copy_throws T v then (Inl CopyThrew, s)
      else case new_Node T v nullptr s of
        (Inl e, s1) \<Rightarrow> (Inl e, s1)
      | (Inr new_node, s1) \<Rightarrow>
          (case set_next_node node new_node s1 of
             Inl e \<Rightarrow> (Inl e, s1)
           | Inr s2 \<Rightarrow>
               (case load s2 node of
                  Inl e \<Rightarrow> (Inl e, s2)
                | Inr nd \<Rightarrow> init_loop_p0 T (next_node nd) vs s2)))"

definition SingleLinkedList_init_p0 ::
  "'a Type \<Rightarrow> addr \<Rightarrow> 'a list \<Rightarrow> 'a state \<Rightarrow> (error + unit) \<times> 'a state" where
  "SingleLinkedList_init_p0 T this vs s =
     (case init_loop_p0 T this vs (init_members T this (of_nat (length vs)) s) of
        (Inl e, s1) \<Rightarrow> (Inl e, release_object this s1)
      | (Inr u, s1) \<Rightarrow> (Inr (), s1))"

text \<open>
  \<^verbatim>\<open>Construct(other.begin(), other.end())\<close> of the copy constructor: the same loop, driven by
  an iterator over the nodes of the other list. Every round takes an address from the free
  store, so the loop ends.
\<close>

function Construct_from ::
  "'a Type \<Rightarrow> addr \<Rightarrow> BasicIterator \<Rightarrow> BasicIterator \<Rightarrow> 'a state \<Rightarrow> (error + unit) \<times> 'a state" where
  "Construct_from T node iterator stop s =
     (if iterator_eq iterator stop then (Inr (), s)
      else case operator_deref s iterator of
        Inl e \<Rightarrow> (Inl e, s)
      | Inr v \<Rightarrow>
          (case new_Node T v nullptr s of
             (Inl e, s1) \<Rightarrow> (Inl e, s1)
           | (Inr new_node, s1) \<Rightarrow>
               (case set_next_node node new_node s1 of
                  Inl e \<Rightarrow> (Inl e, s1)
                | Inr s2 \<Rightarrow>
                    (case load s2 node of
                       Inl e \<Rightarrow> (Inl e, s2)
                     | Inr nd \<Rightarrow>
                         (case operator_incr s2 iterator of
                            Inl e \<Rightarrow> (Inl e, s2)
                          | Inr iterator' \<Rightarrow> Construct_from T (next_node nd) iterator' stop s2)))))"
  by pat_completeness auto
termination
  by (relation "measure (\<lambda>(T, node, iterator, stop, s). length (free_store s))")
    (auto simp: new_Node_def set_next_node_def load_def
      split: list.splits option.splits if_splits sum.splits)

text \<open>\<^verbatim>\<open>SingleLinkedList(const SingleLinkedList& other) : size_(other.GetSize())\<close>\<close>

definition SingleLinkedList_copy ::
  "'a Type \<Rightarrow> addr \<Rightarrow> addr \<Rightarrow> 'a state \<Rightarrow> (error + unit) \<times> 'a state" where
  "SingleLinkedList_copy T this other s =
     (case GetSize other s of
        Inl e \<Rightarrow> (Inl e, s)
      | Inr n \<Rightarrow>
          (let s0 = init_members T this n s in
           case begin_it other s0 of
             Inl e \<Rightarrow> (Inl e, release_object this s0)
           | Inr b \<Rightarrow>
               (case Construct_from T this b end_it s0 of
                  (Inl e, s1) \<Rightarrow> (Inl e, release_object this s1)
                | (Inr u, s1) \<Rightarrow> (Inr (), s1))))"

text \<open>The unnamed variant: \<^verbatim>\<open>for (const auto value : other)\<close> in the constructor.\<close>

function copy_loop_p0 ::
  "'a Type \<Rightarrow> addr \<Rightarrow> BasicIterator \<Rightarrow> BasicIterator \<Rightarrow> 'a state \<Rightarrow> (error + unit) \<times> 'a state" where
  "copy_loop_p0 T node iterator stop s =
     (if iterator_eq iterator stop then (Inr (), s)
      else case operator_deref_p0 s iterator of
        Inl e \<Rightarrow> (Inl e, s)
      | Inr v \<Rightarrow>
          if copy_throws T v then (Inl CopyThrew, s)
          else
          (case new_Node T v nullptr s of
             (Inl e, s1) \<Rightarrow> (Inl e, s1)
           | (Inr new_node, s1) \<Rightarrow>
               (case set_next_node node new_node s1 of
                  Inl e \<Rightarrow> (Inl e, s1)
                | Inr s2 \<Rightarrow>
                    (case load s2 node of
                       Inl e \<Rightarrow> (Inl e, s2)
                     | Inr nd \<Rightarrow>
                         (case operator_incr_p0 s2 iterator of
                            Inl e \<Rightarrow> (Inl e, s2)
                          | Inr iterator' \<Rightarrow> copy_loop_p0 T (next_node nd) iterator' stop s2)))))"
  by pat_completeness auto
termination
  by (relation "measure (\<lambda>(T, node, iterator, stop, s). length (free_store s))")
    (auto simp: new_Node_def set_next_node_def load_def
      split: list.splits option.splits if_splits sum.splits)

definition SingleLinkedList_copy_p0 ::
  "'a Type \<Rightarrow> addr \<Rightarrow> addr \<Rightarrow> 'a state \<Rightarrow> (error + unit) \<times> 'a state" where
  "SingleLinkedList_copy_p0 T this other s =
     (case GetSize other s of
        Inl e \<Rightarrow> (Inl e, s)
      | Inr n \<Rightarrow>
          (let s0 = init_members T this n s in
           case begin_it other s0 of
             Inl e \<Rightarrow> (Inl e, release_object this s0)
           | Inr b \<Rightarrow>
               (case copy_loop_p0 T this b end_it s0 of
                  (Inl e, s1) \<Rightarrow> (Inl e, release_object this s1)
                | (Inr u, s1) \<Rightarrow> (Inr (), s1))))"

text \<open>\<^verbatim>\<open>~SingleLinkedList() { Clear(); }\<close>, after which the members are gone.\<close>

definition SingleLinkedList_dtor :: "addr \<Rightarrow> 'a state \<Rightarrow> (error + unit) \<times> 'a state" where
  "SingleLinkedList_dtor this s =
     (case Clear this s of
        (Inl e, s1) \<Rightarrow> (Inl e, s1)
      | (Inr u, s1) \<Rightarrow> (Inr (), release_object this s1))"

definition SingleLinkedList_dtor_p0 :: "addr \<Rightarrow> 'a state \<Rightarrow> (error + unit) \<times> 'a state" where
  "SingleLinkedList_dtor_p0 this s =
     (case Clear_p0 this s of
        (Inl e, s1) \<Rightarrow> (Inl e, s1)
      | (Inr u, s1) \<Rightarrow> (Inr (), release_object this s1))"

text \<open>
  \<^verbatim>\<open>swap\<close>. The unnamed variant exchanges \<^verbatim>\<open>head_.next_node\<close> and \<^verbatim>\<open>size_\<close> of the two
  lists through temporaries.
\<close>

definition swap_p0 :: "addr \<Rightarrow> addr \<Rightarrow> 'a state \<Rightarrow> (error + unit) \<times> 'a state" where
  "swap_p0 this other s =
     (case load s this of
        Inl e \<Rightarrow> (Inl e, s)
      | Inr h \<Rightarrow>
          (let tmp_head = next_node h in
           case load s other of
             Inl e \<Rightarrow> (Inl e, s)
           | Inr oh \<Rightarrow>
               (case set_next_node this (next_node oh) s of
                  Inl e \<Rightarrow> (Inl e, s)
                | Inr s1 \<Rightarrow>
                    (case set_next_node other tmp_head s1 of
                       Inl e \<Rightarrow> (Inl e, s1)
                     | Inr s2 \<Rightarrow>
                         (case GetSize this s2 of
                            Inl e \<Rightarrow> (Inl e, s2)
                          | Inr tmp_size \<Rightarrow>
                              (case GetSize other s2 of
                                 Inl e \<Rightarrow> (Inl e, s2)
                               | Inr other_size \<Rightarrow>
                                   (case set_size this other_size s2 of
                                      Inl e \<Rightarrow> (Inl e, s2)
                                    | Inr s3 \<Rightarrow>
                                        (case set_size other tmp_size s3 of
                                           Inl e \<Rightarrow> (Inl e, s3)
                                         | Inr s4 \<Rightarrow> (Inr (), s4)))))))))"

text \<open>
  In \<^verbatim>\<open>single-linked-list.h\<close> the body of \<^verbatim>\<open>swap\<close> is
  \<^verbatim>\<open>std::swap(&head_.next_node, &other.head_.next_node); std::swap(&size_, other.size_);\<close>
  The operands are the addresses of the members, not the members. An address taken with
  \<^verbatim>\<open>&\<close> is a temporary, so whatever is exchanged there, it is not what the lists store:
  no statement of the body assigns to \<^verbatim>\<open>head_.next_node\<close> or to \<^verbatim>\<open>size_\<close> of either
  list. (A compiler rejects the two calls once the member is instantiated, since
  \<^verbatim>\<open>std::swap\<close> takes two lvalues of one type.) The store after the call is the store
  before it.
\<close>

definition swap :: "addr \<Rightarrow> addr \<Rightarrow> 'a state \<Rightarrow> (error + unit) \<times> 'a state" where
  "swap this other s =
     (case load s this of
        Inl e \<Rightarrow> (Inl e, s)
      | Inr h \<Rightarrow>
          (case load s other of
             Inl e \<Rightarrow> (Inl e, s)
           | Inr oh \<Rightarrow> (Inr (), s)))"

text \<open>
  Copy assignment: \<^verbatim>\<open>if (this != &rhs) { SingleLinkedList tmp = rhs; swap(tmp); }\<close>; the
  local \<^verbatim>\<open>tmp\<close> is destroyed at the end of the block. \<open>tmp\<close> is the address of the local.
\<close>

definition operator_assign ::
  "'a Type \<Rightarrow> addr \<Rightarrow> addr \<Rightarrow> addr \<Rightarrow> 'a state \<Rightarrow> (error + unit) \<times> 'a state" where
  "operator_assign T this rhs tmp s =
     (if this \<noteq> rhs then
        (case SingleLinkedList_copy T tmp rhs s of
           (Inl e, s1) \<Rightarrow> (Inl e, s1)
         | (Inr u, s1) \<Rightarrow>
             (case swap this tmp s1 of
                (Inl e, s2) \<Rightarrow> (Inl e, s2)
              | (Inr u, s2) \<Rightarrow> SingleLinkedList_dtor tmp s2))
      else (Inr (), s))"

definition operator_assign_p0 ::
  "'a Type \<Rightarrow> addr \<Rightarrow> addr \<Rightarrow> addr \<Rightarrow> 'a state \<Rightarrow> (error + unit) \<times> 'a state" where
  "operator_assign_p0 T this rhs tmp s =
     (if this \<noteq> rhs then
        (case SingleLinkedList_copy_p0 T tmp rhs s of
           (Inl e, s1) \<Rightarrow> (Inl e, s1)
         | (Inr u, s1) \<Rightarrow>
             (case swap_p0 this tmp s1 of
                (Inl e, s2) \<Rightarrow> (Inl e, s2)
              | (Inr u, s2) \<Rightarrow> SingleLinkedList_dtor_p0 tmp s2))
      else (Inr (), s))"

section \<open>Comparison\<close>

text \<open>
  The algorithms of the standard library that the operators call, as the C++ standard
  specifies them, over any forward iterator (given by its \<^verbatim>\<open>++\<close> and \<^verbatim>\<open>*\<close>). They walk
  node chains and need not end on a chain that runs in a circle: not returning is \<open>None\<close>.

  \<^verbatim>\<open>std::equal(first1, last1, first2)\<close>:
  \<^verbatim>\<open>for (; first1 != last1; ++first1, ++first2) if (!(*first1 == *first2)) return false;
  return true;\<close>
\<close>

partial_function (option) std_equal ::
  "(BasicIterator \<Rightarrow> error + BasicIterator) \<Rightarrow> (BasicIterator \<Rightarrow> error + 'a) \<Rightarrow>
   ('a \<Rightarrow> 'a \<Rightarrow> bool) \<Rightarrow> BasicIterator \<Rightarrow> BasicIterator \<Rightarrow> BasicIterator \<Rightarrow>
   (error + bool) option" where
  "std_equal incr deref eq first1 last1 first2 =
     (if iterator_eq first1 last1 then Some (Inr True)
      else case deref first1 of
        Inl e \<Rightarrow> Some (Inl e)
      | Inr a \<Rightarrow>
          (case deref first2 of
             Inl e \<Rightarrow> Some (Inl e)
           | Inr b \<Rightarrow>
               if \<not> eq a b then Some (Inr False)
               else
                 (case incr first1 of
                    Inl e \<Rightarrow> Some (Inl e)
                  | Inr next1 \<Rightarrow>
                      (case incr first2 of
                         Inl e \<Rightarrow> Some (Inl e)
                       | Inr next2 \<Rightarrow> std_equal incr deref eq next1 last1 next2))))"

text \<open>
  \<^verbatim>\<open>std::lexicographical_compare(first1, last1, first2, last2, comp)\<close>:
  \<^verbatim>\<open>for (; first1 != last1 && first2 != last2; ++first1, ++first2) {
    if (comp(*first1, *first2)) return true;
    if (comp(*first2, *first1)) return false; }
  return first1 == last1 && first2 != last2;\<close>
\<close>

partial_function (option) lexicographical_compare ::
  "(BasicIterator \<Rightarrow> error + BasicIterator) \<Rightarrow> (BasicIterator \<Rightarrow> error + 'a) \<Rightarrow>
   ('a \<Rightarrow> 'a \<Rightarrow> bool) \<Rightarrow> BasicIterator \<Rightarrow> BasicIterator \<Rightarrow> BasicIterator \<Rightarrow> BasicIterator \<Rightarrow>
   (error + bool) option" where
  "lexicographical_compare incr deref cmp first1 last1 first2 last2 =
     (if iterator_eq first1 last1 \<or> iterator_eq first2 last2
      then Some (Inr (iterator_eq first1 last1 \<and> \<not> iterator_eq first2 last2))
      else case deref first1 of
        Inl e \<Rightarrow> Some (Inl e)
      | Inr a \<Rightarrow>
          (case deref first2 of
             Inl e \<Rightarrow> Some (Inl e)
           | Inr b \<Rightarrow>
               if cmp a b then Some (Inr True)
               else if cmp b a then Some (Inr False)
               else
                 (case incr first1 of
                    Inl e \<Rightarrow> Some (Inl e)
                  | Inr next1 \<Rightarrow>
                      (case incr first2 of
                         Inl e \<Rightarrow> Some (Inl e)
                       | Inr next2 \<Rightarrow>
                           lexicographical_compare incr deref cmp next1 last1 next2 last2))))"

text \<open>
  \<^verbatim>\<open>operator==\<close> of \<^verbatim>\<open>single-linked-list.h\<close>: equal \<^verbatim>\<open>begin()\<close> iterators give true at
  once, different sizes give false at once, and \<^verbatim>\<open>std::equal\<close> decides otherwise.
\<close>

definition operator_eq :: "'a Type \<Rightarrow> addr \<Rightarrow> addr \<Rightarrow> 'a state \<Rightarrow> (error + bool) option" where
  "operator_eq T lhs rhs s =
     (case begin_it lhs s of
        Inl e \<Rightarrow> Some (Inl e)
      | Inr lb \<Rightarrow>
          (case begin_it rhs s of
             Inl e \<Rightarrow> Some (Inl e)
           | Inr rb \<Rightarrow>
               if iterator_eq lb rb then Some (Inr True)
               else
                 (case GetSize lhs s of
                    Inl e \<Rightarrow> Some (Inl e)
                  | Inr ln \<Rightarrow>
                      (case GetSize rhs s of
                         Inl e \<Rightarrow> Some (Inl e)
                       | Inr rn \<Rightarrow>
                           if ln \<noteq> rn then Some (Inr False)
                           else std_equal (operator_incr s) (operator_deref s) (op_eq T)
                                  lb end_it rb))))"

text \<open>
  The unnamed variant compares in a loop of its own, with \<^verbatim>\<open>!=\<close> on the elements:
  \<^verbatim>\<open>for (lhs_iter = lhs.cbegin(); lhs_iter != lhs.cend(); ++lhs_iter) {
    if (*lhs_iter != *rhs_iter) return false;
    ++rhs_iter; }
  return true;\<close>
\<close>

partial_function (option) eq_loop_p0 ::
  "'a Type \<Rightarrow> 'a state \<Rightarrow> BasicIterator \<Rightarrow> BasicIterator \<Rightarrow> (error + bool) option" where
  "eq_loop_p0 T s lhs_iter rhs_iter =
     (if iterator_eq lhs_iter end_it then Some (Inr True)
      else case operator_deref_p0 s lhs_iter of
        Inl e \<Rightarrow> Some (Inl e)
      | Inr a \<Rightarrow>
          (case operator_deref_p0 s rhs_iter of
             Inl e \<Rightarrow> Some (Inl e)
           | Inr b \<Rightarrow>
               if op_ne T a b then Some (Inr False)
               else
                 (case operator_incr_p0 s rhs_iter of
                    Inl e \<Rightarrow> Some (Inl e)
                  | Inr rhs_next \<Rightarrow>
                      (case operator_incr_p0 s lhs_iter of
                         Inl e \<Rightarrow> Some (Inl e)
                       | Inr lhs_next \<Rightarrow> eq_loop_p0 T s lhs_next rhs_next))))"

definition operator_eq_p0 :: "'a Type \<Rightarrow> addr \<Rightarrow> addr \<Rightarrow> 'a state \<Rightarrow> (error + bool) option" where
  "operator_eq_p0 T lhs rhs s =
     (case begin_it lhs s of
        Inl e \<Rightarrow> Some (Inl e)
      | Inr lb \<Rightarrow>
          (case begin_it rhs s of
             Inl e \<Rightarrow> Some (Inl e)
           | Inr rb \<Rightarrow>
               if iterator_eq lb rb then Some (Inr True)
               else
                 (case GetSize lhs s of
                    Inl e \<Rightarrow> Some (Inl e)
                  | Inr ln \<Rightarrow>
                      (case GetSize rhs s of
                         Inl e \<Rightarrow> Some (Inl e)
                       | Inr rn \<Rightarrow>
                           if ln \<noteq> rn then Some (Inr False)
                           else eq_loop_p0 T s lb rb))))"

text \<open>
  \<^verbatim>\<open>operator<\<close> and \<^verbatim>\<open>operator>\<close>, the same text in both variants: both call
  \<^verbatim>\<open>std::lexicographical_compare\<close> on \<open>lhs\<close> then \<open>rhs\<close>, \<^verbatim>\<open>operator>\<close> with
  \<^verbatim>\<open>std::greater()\<close> as the comparison.
\<close>

definition operator_lt :: "'a Type \<Rightarrow> addr \<Rightarrow> addr \<Rightarrow> 'a state \<Rightarrow> (error + bool) option" where
  "operator_lt T lhs rhs s =
     (case begin_it lhs s of
        Inl e \<Rightarrow> Some (Inl e)
      | Inr lb \<Rightarrow>
          (case begin_it rhs s of
             Inl e \<Rightarrow> Some (Inl e)
           | Inr rb \<Rightarrow>
               lexicographical_compare (operator_incr s) (operator_deref s) (op_lt T)
                 lb end_it rb end_it))"

definition operator_gt :: "'a Type \<Rightarrow> addr \<Rightarrow> addr \<Rightarrow> 'a state \<Rightarrow> (error + bool) option" where
  "operator_gt T lhs rhs s =
     (case begin_it lhs s of
        Inl e \<Rightarrow> Some (Inl e)
      | Inr lb \<Rightarrow>
          (case begin_it rhs s of
             Inl e \<Rightarrow> Some (Inl e)
           | Inr rb \<Rightarrow>
               lexicographical_compare (operator_incr s) (operator_deref s) (op_gt T)
                 lb end_it rb end_it))"

section \<open>Traversal\<close>

text \<open>
  What a caller sees of a list: the values met by
  \<^verbatim>\<open>for (auto it = list.begin(); it != list.end(); ++it) out.push_back(*it);\<close>
\<close>

partial_function (option) traverse_loop ::
  "'a state \<Rightarrow> BasicIterator \<Rightarrow> 'a list \<Rightarrow> (error + 'a list) option" where
  "traverse_loop s it out =
     (if iterator_eq it end_it then Some (Inr out)
      else case operator_deref s it of
        Inl e \<Rightarrow> Some (Inl e)
      | Inr v \<Rightarrow>
          (case operator_incr s it of
             Inl e \<Rightarrow> Some (Inl e)
           | Inr it' \<Rightarrow> traverse_loop s it' (out @ [v])))"

definition traverse :: "addr \<Rightarrow> 'a state \<Rightarrow> (error + 'a list) option" where
  "traverse this s =
     (case begin_it this s of
        Inl e \<Rightarrow> Some (Inl e)
      | Inr b \<Rightarrow> traverse_loop s b [])"

section \<open>The shape of a well-formed list\<close>

text \<open>
  \<open>chain s p as\<close>: following \<^verbatim>\<open>next_node\<close> from the pointer \<open>p\<close> visits exactly the live
  nodes at the addresses \<open>as\<close>, in this order, and then reaches the null pointer.
\<close>

fun chain :: "'a state \<Rightarrow> addr \<Rightarrow> addr list \<Rightarrow> bool" where
  "chain s p [] = (p = nullptr)"
| "chain s p (a # as) =
     (p = a \<and> (case load s a of Inl e \<Rightarrow> False | Inr n \<Rightarrow> chain s (next_node n) as))"

text \<open>The values stored in the nodes at the given addresses.\<close>

definition contents :: "'a state \<Rightarrow> addr list \<Rightarrow> 'a list" where
  "contents s as = map (\<lambda>a. val (the (nodes s a))) as"

text \<open>
  \<open>is_list s this as\<close>: a list object lives at \<open>this\<close>, the nodes behind its \<^verbatim>\<open>head_\<close> are
  \<open>as\<close> (\<^verbatim>\<open>head_\<close> not among them), and \<^verbatim>\<open>size_\<close> is their number.
\<close>

definition is_list :: "'a state \<Rightarrow> addr \<Rightarrow> addr list \<Rightarrow> bool" where
  "is_list s this as =
     (case load s this of
        Inl e \<Rightarrow> False
      | Inr h \<Rightarrow>
          chain s (next_node h) as \<and> this \<notin> set as \<and>
          (case sizes s this of None \<Rightarrow> False | Some n \<Rightarrow> unat n = length as))"

text \<open>The nodes that can be reached from a pointer by following \<^verbatim>\<open>next_node\<close>.\<close>

inductive_set reach :: "'a state \<Rightarrow> addr \<Rightarrow> addr set" for s :: "'a state" and p :: addr where
  start: "p \<noteq> nullptr \<Longrightarrow> p \<in> reach s p"
| step: "a \<in> reach s p \<Longrightarrow> load s a = Inr n \<Longrightarrow> next_node n \<noteq> nullptr \<Longrightarrow> next_node n \<in> reach s p"

text \<open>
  The free store is sound when it offers each address once, never the null pointer and never
  the address of a live node or list.
\<close>

definition heap_ok :: "'a state \<Rightarrow> bool" where
  "heap_ok s =
     (distinct (free_store s) \<and> nullptr \<notin> set (free_store s) \<and>
      (\<forall>a \<in> set (free_store s). nodes s a = None \<and> sizes s a = None))"

text \<open>
  The invariant of a store: the free store is sound, every live list is well formed, no
  \<^verbatim>\<open>head_\<close> is a node of a chain, and two lists share no node.
\<close>

definition well_formed :: "'a state \<Rightarrow> bool" where
  "well_formed s =
     (heap_ok s \<and>
      (\<forall>l. sizes s l \<noteq> None \<longrightarrow> (\<exists>as. is_list s l as)) \<and>
      (\<forall>l as l'. is_list s l as \<longrightarrow> sizes s l' \<noteq> None \<longrightarrow> l' \<notin> set as) \<and>
      (\<forall>l as l' as'. is_list s l as \<longrightarrow> is_list s l' as' \<longrightarrow> l \<noteq> l' \<longrightarrow> set as \<inter> set as' = {}))"

text \<open>
  Lexicographic comparison of two sequences by a comparison of their elements, as the
  specification words it: the first position where the elements differ (one is before the
  other) decides, and a sequence that ends first is before a longer one.
\<close>

fun lex_less :: "('a \<Rightarrow> 'a \<Rightarrow> bool) \<Rightarrow> 'a list \<Rightarrow> 'a list \<Rightarrow> bool" where
  "lex_less cmp [] [] = False"
| "lex_less cmp [] (y # ys) = True"
| "lex_less cmp (x # xs) [] = False"
| "lex_less cmp (x # xs) (y # ys) =
     (if cmp x y then True else if cmp y x then False else lex_less cmp xs ys)"

section \<open>Reachable stores\<close>

text \<open>
  Storage is unused when no node and no list lives there and it is not part of the free
  store: where a new list object (a variable of the caller) can be constructed.
\<close>

definition unused :: "'a state \<Rightarrow> addr \<Rightarrow> bool" where
  "unused s this =
     (this \<noteq> nullptr \<and> nodes s this = None \<and> sizes s this = None \<and> this \<notin> set (free_store s))"

text \<open>
  A call completes when it returns or throws one of the two exceptions; the other ways to
  end are contract violations (a failed assertion, undefined behaviour).
\<close>

definition completes :: "error + 'r \<Rightarrow> bool" where
  "completes r = (case r of Inr x \<Rightarrow> True | Inl e \<Rightarrow> e = BadAlloc \<or> e = CopyThrew)"

text \<open>
  The stores a program can reach: it starts with no list and any sound free store, constructs
  lists in unused storage, and calls the public operations of either variant on live lists,
  with positions of the list they are called on. A call that throws leaves a store the
  program can go on from.
\<close>

inductive reachable :: "'a Type \<Rightarrow> 'a state \<Rightarrow> bool" for T :: "'a Type" where
  initial:
    "distinct fs \<Longrightarrow> nullptr \<notin> set fs \<Longrightarrow>
     reachable T \<lparr>nodes = Map.empty, sizes = Map.empty, free_store = fs\<rparr>"
| construct_default:
    "reachable T s \<Longrightarrow> unused s this \<Longrightarrow> SingleLinkedList_default T this s = (r, s') \<Longrightarrow>
     reachable T s'"
| construct_init:
    "reachable T s \<Longrightarrow> unused s this \<Longrightarrow> SingleLinkedList_init T this vs s = (r, s') \<Longrightarrow>
     completes r \<Longrightarrow> reachable T s'"
| construct_init_p0:
    "reachable T s \<Longrightarrow> unused s this \<Longrightarrow> SingleLinkedList_init_p0 T this vs s = (r, s') \<Longrightarrow>
     completes r \<Longrightarrow> reachable T s'"
| construct_copy:
    "reachable T s \<Longrightarrow> unused s this \<Longrightarrow> sizes s other \<noteq> None \<Longrightarrow>
     SingleLinkedList_copy T this other s = (r, s') \<Longrightarrow> completes r \<Longrightarrow> reachable T s'"
| construct_copy_p0:
    "reachable T s \<Longrightarrow> unused s this \<Longrightarrow> sizes s other \<noteq> None \<Longrightarrow>
     SingleLinkedList_copy_p0 T this other s = (r, s') \<Longrightarrow> completes r \<Longrightarrow> reachable T s'"
| destroy:
    "reachable T s \<Longrightarrow> sizes s this \<noteq> None \<Longrightarrow> SingleLinkedList_dtor this s = (r, s') \<Longrightarrow>
     completes r \<Longrightarrow> reachable T s'"
| destroy_p0:
    "reachable T s \<Longrightarrow> sizes s this \<noteq> None \<Longrightarrow> SingleLinkedList_dtor_p0 this s = (r, s') \<Longrightarrow>
     completes r \<Longrightarrow> reachable T s'"
| push_front:
    "reachable T s \<Longrightarrow> sizes s this \<noteq> None \<Longrightarrow> PushFront T this v s = (r, s') \<Longrightarrow>
     completes r \<Longrightarrow> reachable T s'"
| pop_front:
    "reachable T s \<Longrightarrow> sizes s this \<noteq> None \<Longrightarrow> PopFront this s = (r, s') \<Longrightarrow>
     completes r \<Longrightarrow> reachable T s'"
| pop_front_p0:
    "reachable T s \<Longrightarrow> sizes s this \<noteq> None \<Longrightarrow> PopFront_p0 this s = (r, s') \<Longrightarrow>
     completes r \<Longrightarrow> reachable T s'"
| insert_after:
    "reachable T s \<Longrightarrow> is_list s this as \<Longrightarrow> nodeptr pos \<in> set (this # as) \<Longrightarrow>
     InsertAfter T this pos v s = (r, s') \<Longrightarrow> completes r \<Longrightarrow> reachable T s'"
| insert_after_p0:
    "reachable T s \<Longrightarrow> is_list s this as \<Longrightarrow> nodeptr pos \<in> set (this # as) \<Longrightarrow>
     InsertAfter_p0 T this pos v s = (r, s') \<Longrightarrow> completes r \<Longrightarrow> reachable T s'"
| erase_after:
    "reachable T s \<Longrightarrow> is_list s this as \<Longrightarrow> nodeptr pos \<in> set (this # as) \<Longrightarrow>
     EraseAfter this pos s = (r, s') \<Longrightarrow> completes r \<Longrightarrow> reachable T s'"
| erase_after_p0:
    "reachable T s \<Longrightarrow> is_list s this as \<Longrightarrow> nodeptr pos \<in> set (this # as) \<Longrightarrow>
     EraseAfter_p0 this pos s = (r, s') \<Longrightarrow> completes r \<Longrightarrow> reachable T s'"
| clear:
    "reachable T s \<Longrightarrow> sizes s this \<noteq> None \<Longrightarrow> Clear this s = (r, s') \<Longrightarrow>
     completes r \<Longrightarrow> reachable T s'"
| clear_p0:
    "reachable T s \<Longrightarrow> sizes s this \<noteq> None \<Longrightarrow> Clear_p0 this s = (r, s') \<Longrightarrow>
     completes r \<Longrightarrow> reachable T s'"
| swap_lists:
    "reachable T s \<Longrightarrow> sizes s this \<noteq> None \<Longrightarrow> sizes s other \<noteq> None \<Longrightarrow>
     swap this other s = (r, s') \<Longrightarrow> completes r \<Longrightarrow> reachable T s'"
| swap_lists_p0:
    "reachable T s \<Longrightarrow> sizes s this \<noteq> None \<Longrightarrow> sizes s other \<noteq> None \<Longrightarrow>
     swap_p0 this other s = (r, s') \<Longrightarrow> completes r \<Longrightarrow> reachable T s'"
| assign:
    "reachable T s \<Longrightarrow> sizes s this \<noteq> None \<Longrightarrow> sizes s rhs \<noteq> None \<Longrightarrow> unused s tmp \<Longrightarrow>
     operator_assign T this rhs tmp s = (r, s') \<Longrightarrow> completes r \<Longrightarrow> reachable T s'"
| assign_p0:
    "reachable T s \<Longrightarrow> sizes s this \<noteq> None \<Longrightarrow> sizes s rhs \<noteq> None \<Longrightarrow> unused s tmp \<Longrightarrow>
     operator_assign_p0 T this rhs tmp s = (r, s') \<Longrightarrow> completes r \<Longrightarrow> reachable T s'"

section \<open>Example instances\<close>

text \<open>\<^verbatim>\<open>Type = int\<close>: copying never throws, the operators are those of the integers.\<close>

definition int_Type :: "int Type" where
  "int_Type = \<lparr>default_value = 0, copy_throws = (\<lambda>v. False),
     op_eq = (\<lambda>a b. a = b), op_ne = (\<lambda>a b. a \<noteq> b),
     op_lt = (\<lambda>a b. a < b), op_gt = (\<lambda>a b. a > b)\<rparr>"

text \<open>A store with one empty list at address 1 and the free addresses 2 to 6.\<close>

definition empty_at_1 :: "int state" where
  "empty_at_1 = \<lparr>nodes = [1 \<mapsto> \<lparr>val = 0, next_node = nullptr\<rparr>], sizes = [1 \<mapsto> 0],
     free_store = [2, 3, 4, 5, 6]\<rparr>"

text \<open>The same list when the free store is exhausted.\<close>

definition empty_at_1_no_memory :: "int state" where
  "empty_at_1_no_memory = \<lparr>nodes = [1 \<mapsto> \<lparr>val = 0, next_node = nullptr\<rparr>], sizes = [1 \<mapsto> 0],
     free_store = []\<rparr>"

text \<open>
  Two lists built by the constructor from \<^verbatim>\<open>{1, 2}\<close> (at address 1) and from
  \<^verbatim>\<open>{1, 2, 3}\<close> (at address 2).
\<close>

definition two_lists :: "int state" where
  "two_lists =
     snd (SingleLinkedList_init int_Type 2 [1, 2, 3]
       (snd (SingleLinkedList_init int_Type 1 [1, 2]
          \<lparr>nodes = Map.empty, sizes = Map.empty, free_store = [3, 4, 5, 6, 7, 8]\<rparr>)))"

text \<open>Two lists built from \<^verbatim>\<open>{1, 2}\<close> each, at the addresses 1 and 2.\<close>

definition equal_lists :: "int state" where
  "equal_lists =
     snd (SingleLinkedList_init int_Type 2 [1, 2]
       (snd (SingleLinkedList_init int_Type 1 [1, 2]
          \<lparr>nodes = Map.empty, sizes = Map.empty, free_store = [3, 4, 5, 6, 7, 8]\<rparr>)))"

section \<open>Properties\<close>

text \<open>
  C10. In \<^verbatim>\<open>single-linked-list.h\<close>, \<^verbatim>\<open>PopFront()\<close> on a list whose size is 0 returns
  without touching anything: the whole store (hence the size, which stays 0, and the chain
  behind \<^verbatim>\<open>head_\<close>, which stays empty) is the one before the call.
\<close>

theorem PopFront_empty_noop:
  "GetSize this s = Inr 0 \<Longrightarrow> PopFront this s = (Inr (), s)"
  by (simp add: PopFront_def)

theorem PopFront_empty_noop_witness:
  "GetSize 1 \<lparr>nodes = [1 \<mapsto> \<lparr>val = 0::nat, next_node = nullptr\<rparr>], sizes = [1 \<mapsto> 0],
              free_store = [2, 3]\<rparr> = Inr 0
   \<and> PopFront 1 \<lparr>nodes = [1 \<mapsto> \<lparr>val = 0::nat, next_node = nullptr\<rparr>], sizes = [1 \<mapsto> 0],
                 free_store = [2, 3]\<rparr>
     = (Inr (), \<lparr>nodes = [1 \<mapsto> \<lparr>val = 0::nat, next_node = nullptr\<rparr>], sizes = [1 \<mapsto> 0],
                 free_store = [2, 3]\<rparr>)"
proof -
  have g: "GetSize 1 \<lparr>nodes = [1 \<mapsto> \<lparr>val = 0::nat, next_node = nullptr\<rparr>], sizes = [1 \<mapsto> 0],
              free_store = [2, 3]\<rparr> = Inr 0"
    by (simp add: GetSize_def)
  show ?thesis
    using g PopFront_empty_noop [OF g] by simp
qed

text \<open>
  C9. \<^verbatim>\<open>InsertAfter(before_begin(), v)\<close> and \<^verbatim>\<open>PushFront(v)\<close> end alike and leave the same
  store, hence the same chain, values and size; when they return, the iterator returned by
  \<^verbatim>\<open>InsertAfter\<close> is \<^verbatim>\<open>begin()\<close> of the list afterwards. (The address of a list object
  is never null.)
\<close>

theorem InsertAfter_before_begin_PushFront:
  assumes "this \<noteq> nullptr"
  shows "case InsertAfter T this (before_begin this) v s of
           (Inl e, s') \<Rightarrow> PushFront T this v s = (Inl e, s')
         | (Inr it, s') \<Rightarrow> PushFront T this v s = (Inr (), s') \<and> begin_it this s' = Inr it"
  using assms
  by (auto simp: InsertAfter_def InsertAfter_p0_def PushFront_def before_begin_def begin_it_def
      set_next_node_def inc_size_def new_Node_def load_def
      split: sum.splits prod.splits option.splits list.splits if_splits)

theorem InsertAfter_before_begin_PushFront_witness:
  "(1::addr) \<noteq> nullptr
   \<and> (case InsertAfter int_Type 1 (before_begin 1) 7 empty_at_1 of
        (Inl e, s') \<Rightarrow> PushFront int_Type 1 7 empty_at_1 = (Inl e, s')
      | (Inr it, s') \<Rightarrow> PushFront int_Type 1 7 empty_at_1 = (Inr (), s') \<and> begin_it 1 s' = Inr it)
   \<and> fst (InsertAfter int_Type 1 (before_begin 1) 7 empty_at_1) = Inr \<lparr>nodeptr = 2\<rparr>"
proof -
  have n: "(1::addr) \<noteq> nullptr"
    by (simp add: nullptr_def)
  have r: "fst (InsertAfter int_Type 1 (before_begin 1) 7 empty_at_1) = Inr \<lparr>nodeptr = 2\<rparr>"
    by (simp add: InsertAfter_def InsertAfter_p0_def before_begin_def set_next_node_def
        inc_size_def new_Node_def load_def empty_at_1_def int_Type_def nullptr_def)
  show ?thesis
    using n r InsertAfter_before_begin_PushFront [OF n, of int_Type 7 empty_at_1] by simp
qed

text \<open>
  C4. When \<^verbatim>\<open>InsertAfter\<close> ends with an exception of the \<^verbatim>\<open>new\<close>-expression
  (\<^verbatim>\<open>std::bad_alloc\<close>, or the copy constructor of the value throws), the store is the one before
  the call: no link and no size has changed. This holds in both variants of the header.
\<close>

theorem InsertAfter_exception_safe:
  assumes "InsertAfter T this pos v s = (Inl e, s') \<or> InsertAfter_p0 T this pos v s = (Inl e, s')"
    and "e = BadAlloc \<or> e = CopyThrew"
  shows "s' = s"
  using assms
  by (auto simp: InsertAfter_def InsertAfter_p0_def set_next_node_def inc_size_def new_Node_def
      load_def split: sum.splits prod.splits option.splits list.splits if_splits)

theorem InsertAfter_exception_safe_witness:
  "InsertAfter int_Type 1 (before_begin 1) 7 empty_at_1_no_memory = (Inl BadAlloc, empty_at_1_no_memory)"
proof -
  have r: "fst (InsertAfter int_Type 1 (before_begin 1) 7 empty_at_1_no_memory) = Inl BadAlloc"
    by (simp add: InsertAfter_def InsertAfter_p0_def before_begin_def new_Node_def load_def
        empty_at_1_no_memory_def int_Type_def nullptr_def)
  obtain s' where s': "InsertAfter int_Type 1 (before_begin 1) 7 empty_at_1_no_memory = (Inl BadAlloc, s')"
    using r by (cases "InsertAfter int_Type 1 (before_begin 1) 7 empty_at_1_no_memory") simp
  have "s' = empty_at_1_no_memory"
    using InsertAfter_exception_safe [of int_Type 1 "before_begin 1" 7 empty_at_1_no_memory BadAlloc s'] s'
    by simp
  with s' show ?thesis by simp
qed

subsection \<open>Chains\<close>

lemma load_Inr_iff: "load s p = Inr n \<longleftrightarrow> p \<noteq> nullptr \<and> nodes s p = Some n"
  by (auto simp: load_def split: option.splits)

lemma chain_unique: "chain s p as \<Longrightarrow> chain s p bs \<Longrightarrow> as = bs"
proof (induction as arbitrary: p bs)
  case Nil
  then show ?case by (cases bs) (auto simp: load_def split: sum.splits)
next
  case (Cons a as)
  then show ?case by (cases bs) (auto simp: load_def split: sum.splits if_splits option.splits)
qed

lemma chain_not_null: "chain s p as \<Longrightarrow> nullptr \<notin> set as"
  by (induction as arbitrary: p) (auto simp: load_def split: sum.splits if_splits option.splits)

lemma chain_live: "chain s p as \<Longrightarrow> a \<in> set as \<Longrightarrow> nodes s a \<noteq> None"
  by (induction as arbitrary: p) (auto simp: load_def split: sum.splits if_splits option.splits)

lemma chain_append: "chain s p (xs @ y # ys) \<Longrightarrow> chain s y (y # ys)"
  by (induction xs arbitrary: p) (auto split: sum.splits)

text \<open>A chain that ends in the null pointer visits no node twice.\<close>

lemma chain_distinct: "chain s p as \<Longrightarrow> distinct as"
proof (induction as arbitrary: p)
  case Nil
  then show ?case by simp
next
  case (Cons a as)
  from Cons.prems obtain n where n: "load s a = Inr n" "chain s (next_node n) as" "p = a"
    by (auto split: sum.splits)
  have "a \<notin> set as"
  proof
    assume "a \<in> set as"
    then obtain xs ys where as: "as = xs @ a # ys"
      by (auto simp: in_set_conv_decomp)
    with n have "chain s a (a # ys)"
      using chain_append by metis
    moreover have "chain s a (a # as)" using n by simp
    ultimately have "a # ys = a # as" by (rule chain_unique)
    with as show False by simp
  qed
  with Cons.IH n show ?case by simp
qed

lemma chain_frame:
  "chain s p as \<Longrightarrow> (\<And>a. a \<in> set as \<Longrightarrow> nodes s' a = nodes s a) \<Longrightarrow> chain s' p as"
  by (induction as arbitrary: p) (auto simp: load_def split: sum.splits if_splits option.splits)

lemma chain_hd: "chain s p as \<Longrightarrow> (p = nullptr) = (as = [])"
  by (cases as) (auto simp: load_Inr_iff split: sum.splits)

lemma is_listD:
  assumes "is_list s l as"
  obtains h n where "load s l = Inr h" "chain s (next_node h) as" "l \<notin> set as"
    "sizes s l = Some n" "unat n = length as"
  using assms by (auto simp: is_list_def split: sum.splits option.splits)

lemma is_list_unique: "is_list s l as \<Longrightarrow> is_list s l bs \<Longrightarrow> as = bs"
  by (auto elim!: is_listD dest: chain_unique)

subsection \<open>Walking a chain with iterators\<close>

lemma iter_ops:
  assumes "load s a = Inr n"
  shows "operator_incr s \<lparr>nodeptr = a\<rparr> = Inr \<lparr>nodeptr = next_node n\<rparr>"
    and "operator_deref s \<lparr>nodeptr = a\<rparr> = Inr (val n)"
    and "operator_incr_p0 s \<lparr>nodeptr = a\<rparr> = Inr \<lparr>nodeptr = next_node n\<rparr>"
    and "operator_deref_p0 s \<lparr>nodeptr = a\<rparr> = Inr (val n)"
  using assms
  by (auto simp: operator_deref_def operator_deref_p0_def operator_incr_def operator_incr_p0_def
      load_def split: if_splits)

lemma traverse_loop_chain:
  "chain s p as \<Longrightarrow> traverse_loop s \<lparr>nodeptr = p\<rparr> out = Some (Inr (out @ contents s as))"
proof (induction as arbitrary: p out)
  case Nil
  then show ?case
    by (subst traverse_loop.simps) (simp add: iterator_eq_def end_it_def contents_def)
next
  case (Cons a as)
  from Cons.prems obtain n where n: "load s a = Inr n" "chain s (next_node n) as" "p = a"
    by (auto split: sum.splits)
  from n have nn: "a \<noteq> nullptr" "nodes s a = Some n" by (auto simp: load_Inr_iff)
  show ?case
    apply (subst traverse_loop.simps)
    using n nn Cons.IH [OF n(2), of "out @ [val n]"]
    by (simp add: iterator_eq_def end_it_def iter_ops contents_def)
qed

lemma traverse_is_list: "is_list s l as \<Longrightarrow> traverse l s = Some (Inr (contents s as))"
  by (auto elim!: is_listD simp: traverse_def begin_it_def traverse_loop_chain)

lemma lexicographical_compare_chain:
  "chain s p as \<Longrightarrow> chain s q bs \<Longrightarrow>
   lexicographical_compare (operator_incr s) (operator_deref s) cmp
       \<lparr>nodeptr = p\<rparr> end_it \<lparr>nodeptr = q\<rparr> end_it
     = Some (Inr (lex_less cmp (contents s as) (contents s bs)))"
proof (induction as arbitrary: p q bs)
  case Nil
  then show ?case
    by (cases bs)
      (auto simp: lexicographical_compare.simps iterator_eq_def end_it_def contents_def
        load_Inr_iff split: sum.splits)
next
  case (Cons a as)
  from Cons.prems obtain n where n: "load s a = Inr n" "chain s (next_node n) as" "p = a"
    by (auto split: sum.splits)
  from n have nn: "a \<noteq> nullptr" "nodes s a = Some n" by (auto simp: load_Inr_iff)
  show ?case
  proof (cases bs)
    case Nil
    with Cons.prems nn n show ?thesis
      by (subst lexicographical_compare.simps) (simp add: iterator_eq_def end_it_def contents_def)
  next
    case (Cons b bs')
    from Cons Cons.prems obtain m where m: "load s b = Inr m" "chain s (next_node m) bs'" "q = b"
      by (auto split: sum.splits)
    from m have mm: "b \<noteq> nullptr" "nodes s b = Some m" by (auto simp: load_Inr_iff)
    show ?thesis
      apply (subst lexicographical_compare.simps)
      using n nn m mm Cons Cons.IH [OF n(2) m(2)]
      by (simp add: iterator_eq_def end_it_def iter_ops contents_def)
  qed
qed

lemma std_equal_chain:
  "chain s p as \<Longrightarrow> chain s q bs \<Longrightarrow> length as = length bs \<Longrightarrow>
   std_equal (operator_incr s) (operator_deref s) eq \<lparr>nodeptr = p\<rparr> end_it \<lparr>nodeptr = q\<rparr>
     = Some (Inr (list_all2 eq (contents s as) (contents s bs)))"
proof (induction as arbitrary: p q bs)
  case Nil
  then show ?case
    by (subst std_equal.simps) (simp add: iterator_eq_def end_it_def contents_def)
next
  case (Cons a as)
  from Cons.prems obtain n where n: "load s a = Inr n" "chain s (next_node n) as" "p = a"
    by (auto split: sum.splits)
  from n have nn: "a \<noteq> nullptr" by (auto simp: load_Inr_iff)
  from Cons.prems obtain b bs' where bs: "bs = b # bs'" "length as = length bs'"
    by (cases bs) auto
  from bs Cons.prems obtain m where m: "load s b = Inr m" "chain s (next_node m) bs'" "q = b"
    by (auto split: sum.splits)
  show ?case
    apply (subst std_equal.simps)
    using n nn m bs Cons.IH [OF n(2) m(2) bs(2)]
    by (simp add: iterator_eq_def end_it_def iter_ops contents_def load_Inr_iff)
qed

lemma eq_loop_p0_chain:
  "chain s p as \<Longrightarrow> chain s q bs \<Longrightarrow> length as = length bs \<Longrightarrow>
   eq_loop_p0 T s \<lparr>nodeptr = p\<rparr> \<lparr>nodeptr = q\<rparr>
     = Some (Inr (list_all2 (\<lambda>x y. \<not> op_ne T x y) (contents s as) (contents s bs)))"
proof (induction as arbitrary: p q bs)
  case Nil
  then show ?case
    by (subst eq_loop_p0.simps) (simp add: iterator_eq_def end_it_def contents_def)
next
  case (Cons a as)
  from Cons.prems obtain n where n: "load s a = Inr n" "chain s (next_node n) as" "p = a"
    by (auto split: sum.splits)
  from n have nn: "a \<noteq> nullptr" by (auto simp: load_Inr_iff)
  from Cons.prems obtain b bs' where bs: "bs = b # bs'" "length as = length bs'"
    by (cases bs) auto
  from bs Cons.prems obtain m where m: "load s b = Inr m" "chain s (next_node m) bs'" "q = b"
    by (auto split: sum.splits)
  show ?case
    apply (subst eq_loop_p0.simps)
    using n nn m bs Cons.IH [OF n(2) m(2) bs(2)]
    by (simp add: iterator_eq_def end_it_def iter_ops contents_def load_Inr_iff)
qed

subsection \<open>The example stores\<close>

lemmas run_defs = SingleLinkedList_init_def Construct_def init_members_def new_Node_def
  set_next_node_def load_def nullptr_def int_Type_def release_object_def

lemmas walk_defs = begin_it_def load_def nullptr_def iterator_eq_def end_it_def operator_deref_def
  operator_deref_p0_def operator_incr_def operator_incr_p0_def GetSize_def

lemma two_lists_eq:
  "two_lists = \<lparr>nodes = [1 \<mapsto> \<lparr>val = 0, next_node = 3\<rparr>, 3 \<mapsto> \<lparr>val = 1, next_node = 4\<rparr>,
      4 \<mapsto> \<lparr>val = 2, next_node = 0\<rparr>, 2 \<mapsto> \<lparr>val = 0, next_node = 5\<rparr>,
      5 \<mapsto> \<lparr>val = 1, next_node = 6\<rparr>, 6 \<mapsto> \<lparr>val = 2, next_node = 7\<rparr>,
      7 \<mapsto> \<lparr>val = 3, next_node = 0\<rparr>],
    sizes = [1 \<mapsto> 2, 2 \<mapsto> 3], free_store = [8]\<rparr>"
  unfolding two_lists_def by (simp add: run_defs) (rule ext, simp)

lemma equal_lists_eq:
  "equal_lists = \<lparr>nodes = [1 \<mapsto> \<lparr>val = 0, next_node = 3\<rparr>, 3 \<mapsto> \<lparr>val = 1, next_node = 4\<rparr>,
      4 \<mapsto> \<lparr>val = 2, next_node = 0\<rparr>, 2 \<mapsto> \<lparr>val = 0, next_node = 5\<rparr>,
      5 \<mapsto> \<lparr>val = 1, next_node = 6\<rparr>, 6 \<mapsto> \<lparr>val = 2, next_node = 0\<rparr>],
    sizes = [1 \<mapsto> 2, 2 \<mapsto> 2], free_store = [7, 8]\<rparr>"
  unfolding equal_lists_def by (simp add: run_defs) (rule ext, simp)

subsection \<open>Ordering\<close>

text \<open>
  On two well-formed lists \<^verbatim>\<open>operator<\<close> is the lexicographic comparison of the two
  traversals by \<^verbatim>\<open><\<close> of the elements, and \<^verbatim>\<open>operator>\<close> is the same comparison, of the
  same two traversals in the same order, by \<^verbatim>\<open>>\<close> of the elements.
\<close>

lemma operator_lt_lists:
  "is_list s a as \<Longrightarrow> is_list s b bs \<Longrightarrow>
   operator_lt T a b s = Some (Inr (lex_less (op_lt T) (contents s as) (contents s bs)))"
  by (auto elim!: is_listD simp: operator_lt_def begin_it_def lexicographical_compare_chain)

lemma operator_gt_lists:
  "is_list s a as \<Longrightarrow> is_list s b bs \<Longrightarrow>
   operator_gt T a b s = Some (Inr (lex_less (op_gt T) (contents s as) (contents s bs)))"
  by (auto elim!: is_listD simp: operator_gt_def begin_it_def lexicographical_compare_chain)

text \<open>
  Whatever the comparison of the elements, as long as no element is before itself: a sequence
  is before each of its proper extensions. So \<^verbatim>\<open>a > b\<close> is true whenever \<open>a\<close> is a strict
  prefix of \<open>b\<close>, just as \<^verbatim>\<open>a < b\<close> is.
\<close>

lemma lex_less_strict_prefix: "(\<And>x. \<not> cmp x x) \<Longrightarrow> lex_less cmp xs (xs @ y # ys)"
  by (induction xs) auto

lemma lex_less_extension: "(\<And>x. \<not> cmp x x) \<Longrightarrow> \<not> lex_less cmp (xs @ y # ys) xs"
  by (induction xs) auto

text \<open>
  C2. With \<^verbatim>\<open>a = {1, 2}\<close> and \<^verbatim>\<open>b = {1, 2, 3}\<close>: \<^verbatim>\<open>a < b\<close> is true and \<^verbatim>\<open>b < a\<close> is
  false, as the lexicographic order has it; but \<^verbatim>\<open>a > b\<close> is true too, and \<^verbatim>\<open>b > a\<close> is
  false. \<^verbatim>\<open>operator>\<close> does not answer \<^verbatim>\<open>rhs < lhs\<close>: it runs the same prefix rule on the
  operands in the same order.
\<close>

theorem operator_gt_on_strict_prefix:
  "traverse 1 two_lists = Some (Inr [1, 2]) \<and>
   traverse 2 two_lists = Some (Inr [1, 2, 3]) \<and>
   operator_lt int_Type 1 2 two_lists = Some (Inr True) \<and>
   operator_lt int_Type 2 1 two_lists = Some (Inr False) \<and>
   operator_gt int_Type 1 2 two_lists = Some (Inr True) \<and>
   operator_gt int_Type 2 1 two_lists = Some (Inr False)"
proof -
  have "traverse 1 two_lists = Some (Inr [1, 2])"
    by (simp add: two_lists_eq traverse_def traverse_loop.simps walk_defs)
  moreover have "traverse 2 two_lists = Some (Inr [1, 2, 3])"
    by (simp add: two_lists_eq traverse_def traverse_loop.simps walk_defs)
  moreover have "operator_lt int_Type 1 2 two_lists = Some (Inr True)"
    by (simp add: two_lists_eq operator_lt_def lexicographical_compare.simps walk_defs int_Type_def)
  moreover have "operator_lt int_Type 2 1 two_lists = Some (Inr False)"
    by (simp add: two_lists_eq operator_lt_def lexicographical_compare.simps walk_defs int_Type_def)
  moreover have "operator_gt int_Type 1 2 two_lists = Some (Inr True)"
    by (simp add: two_lists_eq operator_gt_def lexicographical_compare.simps walk_defs int_Type_def)
  moreover have "operator_gt int_Type 2 1 two_lists = Some (Inr False)"
    by (simp add: two_lists_eq operator_gt_def lexicographical_compare.simps walk_defs int_Type_def)
  ultimately show ?thesis by simp
qed

subsection \<open>Equality\<close>

lemma operator_eq_lists:
  assumes a: "is_list s a as" and b: "is_list s b bs"
    and disj: "a \<noteq> b \<longrightarrow> set as \<inter> set bs = {}"
  shows "operator_eq T a b s =
           Some (Inr (a = b \<or> (GetSize a s = GetSize b s \<and>
                                list_all2 (op_eq T) (contents s as) (contents s bs))))" (is ?A)
    and "(\<forall>x y. op_ne T x y = (\<not> op_eq T x y)) \<Longrightarrow> operator_eq_p0 T a b s =
           Some (Inr (a = b \<or> (GetSize a s = GetSize b s \<and>
                                list_all2 (op_eq T) (contents s as) (contents s bs))))"
      (is "?N \<Longrightarrow> ?B")
proof -
  from a obtain h n where h: "load s a = Inr h" "chain s (next_node h) as" "sizes s a = Some n"
    "unat n = length as" by (rule is_listD)
  from b obtain k m where k: "load s b = Inr k" "chain s (next_node k) bs" "sizes s b = Some m"
    "unat m = length bs" by (rule is_listD)
  have sz: "(n = m) = (length as = length bs)"
    using h(4) k(4) by (metis word_unat_eq_iff)
  have beg: "begin_it a s = Inr \<lparr>nodeptr = next_node h\<rparr>"
    "begin_it b s = Inr \<lparr>nodeptr = next_node k\<rparr>"
    using h k by (simp_all add: begin_it_def)
  have gs: "GetSize a s = Inr n" "GetSize b s = Inr m"
    using h k by (simp_all add: GetSize_def)
  have same_begin: "a = b \<or> (as = [] \<and> bs = [])" if "next_node h = next_node k"
  proof (cases "a = b")
    case False
    with disj have d: "set as \<inter> set bs = {}" by simp
    have "as = bs" using h(2) k(2) that by (auto dest: chain_unique)
    with d show ?thesis by auto
  qed simp
  have other_begin: "a \<noteq> b" if "next_node h \<noteq> next_node k"
    using h k that by auto
  show ?A
  proof (cases "next_node h = next_node k")
    case True
    with same_begin show ?thesis
      using beg gs sz by (auto simp: operator_eq_def iterator_eq_def contents_def)
  next
    case False
    note ne = other_begin [OF False]
    show ?thesis
    proof (cases "n = m")
      case True
      with sz have "length as = length bs" by simp
      from std_equal_chain [OF h(2) k(2) this] False True beg gs ne show ?thesis
        by (simp add: operator_eq_def iterator_eq_def)
    next
      case False
      with \<open>next_node h \<noteq> next_node k\<close> beg gs ne show ?thesis
        by (simp add: operator_eq_def iterator_eq_def)
    qed
  qed
  assume N: ?N
  then have eqf: "(\<lambda>x y. \<not> op_ne T x y) = op_eq T" by (intro ext) simp
  show ?B
  proof (cases "next_node h = next_node k")
    case True
    with same_begin show ?thesis
      using beg gs sz by (auto simp: operator_eq_p0_def iterator_eq_def contents_def)
  next
    case False
    note ne = other_begin [OF False]
    show ?thesis
    proof (cases "n = m")
      case True
      with sz have "length as = length bs" by simp
      from eq_loop_p0_chain [OF h(2) k(2) this, of T] False True beg gs ne eqf show ?thesis
        by (simp add: operator_eq_p0_def iterator_eq_def)
    next
      case False
      with \<open>next_node h \<noteq> next_node k\<close> beg gs ne show ?thesis
        by (simp add: operator_eq_p0_def iterator_eq_def)
    qed
  qed
qed

text \<open>
  C3. For two well-formed lists that share no node unless they are one list, \<^verbatim>\<open>operator==\<close>
  is true exactly when they are the same instance, or their sizes are equal and their elements
  are pairwise equal in traversal order (in the unnamed variant, whose loop tests \<^verbatim>\<open>!=\<close>,
  provided \<^verbatim>\<open>!=\<close> of the elements is the negation of \<^verbatim>\<open>==\<close>). And when the two
  \<^verbatim>\<open>begin()\<close> differ and the sizes differ, the answer is false whatever the nodes hold:
  nothing is assumed about the chains, no element is read.
\<close>

theorem operator_eq_same_instance_or_equal_elements:
  "(is_list s a as \<and> is_list s b bs \<and> (a \<noteq> b \<longrightarrow> set as \<inter> set bs = {}) \<longrightarrow>
      operator_eq T a b s =
        Some (Inr (a = b \<or> (GetSize a s = GetSize b s \<and>
                             list_all2 (op_eq T) (contents s as) (contents s bs)))) \<and>
      ((\<forall>x y. op_ne T x y = (\<not> op_eq T x y)) \<longrightarrow>
        operator_eq_p0 T a b s =
          Some (Inr (a = b \<or> (GetSize a s = GetSize b s \<and>
                               list_all2 (op_eq T) (contents s as) (contents s bs)))))) \<and>
   (begin_it a s = Inr ia \<and> begin_it b s = Inr ib \<and> \<not> iterator_eq ia ib \<and>
    GetSize a s = Inr n \<and> GetSize b s = Inr m \<and> n \<noteq> m \<longrightarrow>
      operator_eq T a b s = Some (Inr False) \<and> operator_eq_p0 T a b s = Some (Inr False))"
proof (intro conjI impI)
  assume "is_list s a as \<and> is_list s b bs \<and> (a \<noteq> b \<longrightarrow> set as \<inter> set bs = {})"
  then have l: "is_list s a as" "is_list s b bs" "a \<noteq> b \<longrightarrow> set as \<inter> set bs = {}"
    by simp_all
  show "operator_eq T a b s =
        Some (Inr (a = b \<or> (GetSize a s = GetSize b s \<and>
                             list_all2 (op_eq T) (contents s as) (contents s bs))))"
    by (rule operator_eq_lists(1) [OF l])
  assume "\<forall>x y. op_ne T x y = (\<not> op_eq T x y)"
  then show "operator_eq_p0 T a b s =
          Some (Inr (a = b \<or> (GetSize a s = GetSize b s \<and>
                               list_all2 (op_eq T) (contents s as) (contents s bs))))"
    by (rule operator_eq_lists(2) [OF l])
next
  assume "begin_it a s = Inr ia \<and> begin_it b s = Inr ib \<and> \<not> iterator_eq ia ib \<and>
    GetSize a s = Inr n \<and> GetSize b s = Inr m \<and> n \<noteq> m"
  then show "operator_eq T a b s = Some (Inr False)" "operator_eq_p0 T a b s = Some (Inr False)"
    by (simp_all add: operator_eq_def operator_eq_p0_def)
qed

theorem operator_eq_same_instance_or_equal_elements_witness:
  "is_list equal_lists 1 [3, 4] \<and> is_list equal_lists 2 [5, 6] \<and>
   operator_eq int_Type 1 2 equal_lists = Some (Inr True) \<and>
   operator_eq_p0 int_Type 1 2 equal_lists = Some (Inr True) \<and>
   begin_it 1 two_lists = Inr \<lparr>nodeptr = 3\<rparr> \<and> begin_it 2 two_lists = Inr \<lparr>nodeptr = 5\<rparr> \<and>
   GetSize 1 two_lists = Inr 2 \<and> GetSize 2 two_lists = Inr 3 \<and>
   operator_eq int_Type 1 2 two_lists = Some (Inr False) \<and>
   operator_eq_p0 int_Type 1 2 two_lists = Some (Inr False)"
proof -
  have l: "is_list equal_lists 1 [3, 4]" "is_list equal_lists 2 [5, 6]"
    by (simp_all add: equal_lists_eq is_list_def load_def nullptr_def)
  have c: "contents equal_lists [3, 4] = [1, 2]" "contents equal_lists [5, 6] = [1, 2]"
    "GetSize 1 equal_lists = Inr 2" "GetSize 2 equal_lists = Inr 2"
    by (simp_all add: equal_lists_eq contents_def GetSize_def)
  have t: "op_eq int_Type = (\<lambda>a b. a = b)" "op_ne int_Type = (\<lambda>a b. a \<noteq> b)"
    by (simp_all add: int_Type_def)
  have b: "begin_it 1 two_lists = Inr \<lparr>nodeptr = 3\<rparr>" "begin_it 2 two_lists = Inr \<lparr>nodeptr = 5\<rparr>"
    "GetSize 1 two_lists = Inr 2" "GetSize 2 two_lists = Inr 3"
    by (simp_all add: two_lists_eq walk_defs)
  have "operator_eq int_Type 1 2 equal_lists = Some (Inr True) \<and>
        operator_eq_p0 int_Type 1 2 equal_lists = Some (Inr True)"
    using l c t
      operator_eq_same_instance_or_equal_elements
        [of equal_lists 1 "[3, 4]" 2 "[5, 6]" int_Type "\<lparr>nodeptr = 3\<rparr>" "\<lparr>nodeptr = 5\<rparr>" 2 2]
    by simp
  moreover have "operator_eq int_Type 1 2 two_lists = Some (Inr False) \<and>
        operator_eq_p0 int_Type 1 2 two_lists = Some (Inr False)"
    using b
      operator_eq_same_instance_or_equal_elements
        [of two_lists 1 "[]" 2 "[]" int_Type "\<lparr>nodeptr = 3\<rparr>" "\<lparr>nodeptr = 5\<rparr>" 2 3]
    by (simp add: iterator_eq_def)
  ultimately show ?thesis using l b by simp
qed

subsection \<open>Sizes do not wrap\<close>

text \<open>
  Distinct non-null addresses are fewer than \<open>2 ^ 64\<close>, so the number of nodes of a chain fits
  \<^verbatim>\<open>size_t\<close>: incrementing the size of a well-formed list that gains a node does not wrap.
\<close>

lemma addr_list_bound:
  fixes xs :: "addr list"
  assumes "distinct xs" "nullptr \<notin> set xs"
  shows "length xs < 2 ^ 64"
proof -
  have "set xs \<subseteq> UNIV - {0}" using assms by (auto simp: nullptr_def)
  then have "card (set xs) \<le> card (UNIV - {0 :: addr})"
    by (intro card_mono) auto
  also have "\<dots> = 2 ^ 64 - 1"
    by (simp add: card_Diff_singleton card_word)
  finally show ?thesis using assms(1) by (simp add: distinct_card)
qed

lemma unat_of_nat_length:
  fixes xs :: "addr list"
  assumes "distinct xs" "nullptr \<notin> set xs"
  shows "unat (of_nat (length xs) :: size_t) = length xs"
  using addr_list_bound [OF assms] by (simp add: unat_of_nat)

subsection \<open>Building a chain from a sequence\<close>

text \<open>
  With enough free addresses and no throwing copy, the loop of \<^verbatim>\<open>Construct\<close> hangs one new
  node per value behind \<open>node\<close>, in order, and touches nothing else.
\<close>

lemma Construct_loop_builds:
  assumes "free_store s = fs" "distinct fs" "nullptr \<notin> set fs" "node \<notin> set fs"
    "length vs \<le> length fs" "\<forall>v \<in> set vs. \<not> copy_throws T v"
    "load s node = Inr nd" "next_node nd = nullptr"
  shows "\<exists>s' nd'. Construct_loop T node vs s = (Inr (), s') \<and>
           nodes s' node = Some nd' \<and> val nd' = val nd \<and>
           chain s' (next_node nd') (take (length vs) fs) \<and>
           contents s' (take (length vs) fs) = vs \<and>
           (\<forall>x. x \<noteq> node \<longrightarrow> x \<notin> set (take (length vs) fs) \<longrightarrow> nodes s' x = nodes s x) \<and>
           sizes s' = sizes s \<and> free_store s' = drop (length vs) fs"
  using assms
proof (induction vs arbitrary: node s fs nd)
  case Nil
  then show ?case by (auto simp: load_Inr_iff contents_def)
next
  case (Cons v vs)
  from Cons.prems obtain a fs' where fs: "fs = a # fs'" by (cases fs) auto
  from Cons.prems fs have a: "a \<noteq> nullptr" "a \<noteq> node" "a \<notin> set fs'" "distinct fs'"
    "nullptr \<notin> set fs'" "node \<notin> set fs'" "length vs \<le> length fs'" "\<not> copy_throws T v"
    "\<forall>v \<in> set vs. \<not> copy_throws T v" "node \<noteq> nullptr" "nodes s node = Some nd"
    by (auto simp: load_Inr_iff)
  define s1 where "s1 = s\<lparr>nodes := (nodes s)(a \<mapsto> \<lparr>val = v, next_node = nullptr\<rparr>), free_store := fs'\<rparr>"
  define s2 where "s2 = s1\<lparr>nodes := (nodes s1)(node \<mapsto> nd\<lparr>next_node := a\<rparr>)\<rparr>"
  have n1: "new_Node T v nullptr s = (Inr a, s1)"
    using Cons.prems(1) fs a by (simp add: new_Node_def s1_def)
  have n2: "set_next_node node a s1 = Inr s2"
    using a by (simp add: set_next_node_def load_def s1_def s2_def)
  have n3: "load s2 node = Inr (nd\<lparr>next_node := a\<rparr>)"
    using a by (simp add: load_def s2_def)
  have step: "Construct_loop T node (v # vs) s = Construct_loop T a vs s2"
    using n1 n2 n3 by simp
  have la: "load s2 a = Inr \<lparr>val = v, next_node = nullptr\<rparr>"
    using a by (simp add: load_def s2_def s1_def)
  have f2: "free_store s2 = fs'" by (simp add: s2_def s1_def)
  from Cons.IH [OF f2 a(4) a(5) a(3) a(7) a(9) la]
  obtain s' nd' where IH: "Construct_loop T a vs s2 = (Inr (), s')"
    "nodes s' a = Some nd'" "val nd' = v"
    "chain s' (next_node nd') (take (length vs) fs')"
    "contents s' (take (length vs) fs') = vs"
    "\<forall>x. x \<noteq> a \<longrightarrow> x \<notin> set (take (length vs) fs') \<longrightarrow> nodes s' x = nodes s2 x"
    "sizes s' = sizes s2" "free_store s' = drop (length vs) fs'"
    by auto
  have notin: "node \<notin> set (take (length vs) fs')"
    using a(6) by (auto dest: in_set_takeD)
  have nn: "nodes s' node = Some (nd\<lparr>next_node := a\<rparr>)"
    using IH(6) a notin by (simp add: s2_def)
  have ch: "chain s' a (a # take (length vs) fs')"
    using IH a by (simp add: load_def)
  have frame: "\<forall>x. x \<noteq> node \<longrightarrow> x \<notin> set (take (length (v # vs)) fs) \<longrightarrow> nodes s' x = nodes s x"
    using IH(6) fs by (auto simp: s2_def s1_def)
  show ?case
    apply (rule exI [of _ s'], rule exI [of _ "nd\<lparr>next_node := a\<rparr>"])
    using step IH nn ch frame fs a
    by (simp add: contents_def s2_def s1_def)
qed

lemma init_loop_p0_eq:
  "\<forall>v \<in> set vs. \<not> copy_throws T v \<Longrightarrow> init_loop_p0 T node vs s = Construct_loop T node vs s"
  by (induction vs arbitrary: node s) (auto split: prod.splits sum.splits)

lemma SingleLinkedList_init_builds:
  assumes "distinct (free_store s)" "nullptr \<notin> set (free_store s)" "this \<notin> set (free_store s)"
    "this \<noteq> nullptr" "length vs \<le> length (free_store s)" "\<forall>v \<in> set vs. \<not> copy_throws T v"
  shows "\<exists>s'. SingleLinkedList_init T this vs s = (Inr (), s') \<and>
           SingleLinkedList_init_p0 T this vs s = (Inr (), s') \<and>
           is_list s' this (take (length vs) (free_store s)) \<and>
           contents s' (take (length vs) (free_store s)) = vs \<and>
           sizes s' = (sizes s)(this \<mapsto> of_nat (length vs)) \<and>
           (\<forall>x. x \<noteq> this \<longrightarrow> x \<notin> set (take (length vs) (free_store s)) \<longrightarrow> nodes s' x = nodes s x) \<and>
           free_store s' = drop (length vs) (free_store s)"
proof -
  let ?s0 = "init_members T this (of_nat (length vs)) s"
  let ?as = "take (length vs) (free_store s)"
  have l0: "load ?s0 this = Inr \<lparr>val = default_value T, next_node = nullptr\<rparr>"
    using assms by (simp add: load_def init_members_def)
  have f0: "free_store ?s0 = free_store s" by (simp add: init_members_def)
  from Construct_loop_builds [OF f0 assms(1,2,3,5,6) l0]
  obtain s' nd' where c: "Construct_loop T this vs ?s0 = (Inr (), s')"
    "nodes s' this = Some nd'" "chain s' (next_node nd') ?as" "contents s' ?as = vs"
    "\<forall>x. x \<noteq> this \<longrightarrow> x \<notin> set ?as \<longrightarrow> nodes s' x = nodes ?s0 x"
    "sizes s' = sizes ?s0" "free_store s' = drop (length vs) (free_store s)"
    by auto
  have d: "distinct ?as" "nullptr \<notin> set ?as" "this \<notin> set ?as" "length ?as = length vs"
    using assms by (auto dest: in_set_takeD)
  have u: "unat (of_nat (length vs) :: size_t) = length vs"
    using unat_of_nat_length [OF d(1,2)] d(4) by simp
  have il: "is_list s' this ?as"
    using c d u assms(4) by (simp add: is_list_def load_def init_members_def)
  show ?thesis
    apply (rule exI [of _ s'])
    using c il assms(6)
    by (simp add: SingleLinkedList_init_def SingleLinkedList_init_p0_def Construct_def
        init_loop_p0_eq init_members_def)
qed

subsection \<open>Linking and unlinking a node of a chain\<close>

lemma chain_Cons_iff:
  "chain s p (a # as) \<longleftrightarrow> p = a \<and> a \<noteq> nullptr \<and> (\<exists>n. nodes s a = Some n \<and> chain s (next_node n) as)"
  by (auto simp: load_def split: sum.splits option.splits if_splits)

declare chain.simps(2) [simp del]

lemma chain_insert:
  assumes "chain s q es" "k < length es" "nodes s (es ! k) = Some pn" "a \<notin> set es" "a \<noteq> nullptr"
    "nodes s' = (nodes s)(a \<mapsto> \<lparr>val = v, next_node = next_node pn\<rparr>, es ! k \<mapsto> pn\<lparr>next_node := a\<rparr>)"
  shows "chain s' q (take (Suc k) es @ a # drop (Suc k) es)"
  using assms
proof (induction es arbitrary: q k)
  case Nil
  then show ?case by simp
next
  case (Cons x es)
  from Cons.prems(1) obtain n where x: "q = x" "x \<noteq> nullptr" "nodes s x = Some n" "chain s (next_node n) es"
    by (auto simp: chain_Cons_iff)
  have dx: "x \<notin> set es" using chain_distinct [OF Cons.prems(1)] by simp
  show ?case
  proof (cases k)
    case 0
    with Cons.prems x have pn: "pn = n" by simp
    have "chain s' (next_node n) es"
      using x(4) Cons.prems dx 0 by (intro chain_frame [OF x(4)]) auto
    then show ?thesis
      using 0 x Cons.prems pn by (simp add: chain_Cons_iff)
  next
    case (Suc k')
    with Cons.prems have k': "k' < length es" "nodes s (es ! k') = Some pn" "a \<notin> set es" by auto
    have ne: "es ! k' \<noteq> x" using dx k'(1) by (metis nth_mem)
    have nodes': "nodes s' = (nodes s)(a \<mapsto> \<lparr>val = v, next_node = next_node pn\<rparr>, es ! k' \<mapsto> pn\<lparr>next_node := a\<rparr>)"
      using Cons.prems(6) by (simp only: Suc nth_Cons_Suc)
    from Cons.IH [OF x(4) k'(1,2,3) Cons.prems(5) nodes']
    have "chain s' (next_node n) (take (Suc k') es @ a # drop (Suc k') es)" .
    moreover have "nodes s' x = Some n"
      using nodes' ne Cons.prems(4) x by auto
    ultimately show ?thesis
      using Suc x by (simp add: chain_Cons_iff)
  qed
qed

lemma chain_erase:
  assumes "chain s q es" "Suc k < length es" "nodes s (es ! k) = Some pn" "nodes s (es ! Suc k) = Some dn"
    "nodes s' = ((nodes s)(es ! k \<mapsto> pn\<lparr>next_node := next_node dn\<rparr>))(es ! Suc k := None)"
  shows "chain s' q (take (Suc k) es @ drop (Suc (Suc k)) es)"
  using assms
proof (induction es arbitrary: q k)
  case Nil
  then show ?case by simp
next
  case (Cons x es)
  from Cons.prems(1) obtain n where x: "q = x" "x \<noteq> nullptr" "nodes s x = Some n" "chain s (next_node n) es"
    by (auto simp: chain_Cons_iff)
  have dx: "x \<notin> set es" "distinct es" using chain_distinct [OF Cons.prems(1)] by simp_all
  show ?case
  proof (cases k)
    case 0
    with Cons.prems x have pn: "pn = n" by simp
    from Cons.prems 0 obtain d es' where es: "es = d # es'" by (cases es) auto
    with x(4) Cons.prems 0 have d: "next_node n = d" "chain s (next_node dn) es'"
      by (auto simp: chain_Cons_iff)
    have "d \<notin> set es'" "x \<notin> set es'" "x \<noteq> d" using dx es by auto
    then have "chain s' (next_node dn) es'"
      using Cons.prems 0 es by (intro chain_frame [OF d(2)]) auto
    then show ?thesis
      using 0 x Cons.prems pn es \<open>x \<noteq> d\<close> by (simp add: chain_Cons_iff)
  next
    case (Suc k')
    with Cons.prems have k': "Suc k' < length es" "nodes s (es ! k') = Some pn"
      "nodes s (es ! Suc k') = Some dn" by auto
    have ne: "es ! k' \<noteq> x" "es ! Suc k' \<noteq> x" using dx k'(1) by (metis nth_mem Suc_lessD, metis nth_mem)
    have nodes': "nodes s' = ((nodes s)(es ! k' \<mapsto> pn\<lparr>next_node := next_node dn\<rparr>))(es ! Suc k' := None)"
      using Cons.prems(5) by (simp only: Suc nth_Cons_Suc)
    from Cons.IH [OF x(4) k' nodes']
    have "chain s' (next_node n) (take (Suc k') es @ drop (Suc (Suc k')) es)" .
    moreover have "nodes s' x = Some n"
      using nodes' ne x by auto
    ultimately show ?thesis
      using Suc x by (simp add: chain_Cons_iff)
  qed
qed

text \<open>
  \<^verbatim>\<open>head_\<close> followed by the nodes of a list is a chain itself, which is why inserting and
  erasing after the before-begin position need no case of their own.
\<close>

lemma is_list_chain_head:
  assumes "is_list s this as"
  shows "chain s this (this # as)" "distinct (this # as)" "nullptr \<notin> set (this # as)"
proof -
  from assms obtain h where h: "load s this = Inr h" "chain s (next_node h) as" "this \<notin> set as"
    by (auto elim: is_listD)
  show c: "chain s this (this # as)" using h by (simp add: chain_Cons_iff load_Inr_iff)
  show "distinct (this # as)" using c by (rule chain_distinct)
  show "nullptr \<notin> set (this # as)" using c by (rule chain_not_null)
qed

lemma size_plus_one:
  fixes n :: size_t and as :: "addr list"
  assumes "unat n = length as" "distinct (a # as)" "nullptr \<notin> set (a # as)"
  shows "unat (n + 1) = unat n + 1"
proof -
  have "length (a # as) < 2 ^ 64" using assms(2,3) by (rule addr_list_bound)
  then have "unat n + unat (1 :: size_t) < 2 ^ LENGTH(64)" using assms(1) by simp
  then show ?thesis by (simp add: unat_add_lem [THEN iffD1])
qed

lemma InsertAfter_list:
  assumes l: "is_list s this as" and k: "k \<le> length as" and pos: "nodeptr pos = (this # as) ! k"
    and free: "free_store s = a # fs" "a \<noteq> nullptr" "nodes s a = None" and nt: "\<not> copy_throws T v"
  shows "\<exists>s' n. InsertAfter T this pos v s = (Inr \<lparr>nodeptr = a\<rparr>, s') \<and>
           InsertAfter_p0 T this pos v s = (Inr \<lparr>nodeptr = a\<rparr>, s') \<and>
           is_list s' this (take k as @ a # drop k as) \<and>
           contents s' (take k as @ a # drop k as) = take k (contents s as) @ v # drop k (contents s as) \<and>
           sizes s this = Some n \<and> sizes s' = (sizes s)(this \<mapsto> n + 1) \<and> unat (n + 1) = unat n + 1 \<and>
           (\<forall>x. x \<noteq> a \<longrightarrow> x \<noteq> nodeptr pos \<longrightarrow> nodes s' x = nodes s x) \<and>
           free_store s' = fs"
proof -
  let ?es = "this # as"
  let ?p = "nodeptr pos"
  from l obtain h n where h: "load s this = Inr h" "chain s (next_node h) as" "this \<notin> set as"
    "sizes s this = Some n" "unat n = length as" by (rule is_listD)
  note es = is_list_chain_head [OF l]
  have kl: "k < length ?es" using k by simp
  have pin: "?p \<in> set ?es" unfolding pos using kl by (rule nth_mem)
  then have plive: "nodes s ?p \<noteq> None" "?p \<noteq> nullptr"
    using chain_live [OF es(1)] es(3) by auto
  then obtain pn where pn: "nodes s ?p = Some pn" by auto
  have a_notin: "a \<notin> set ?es" using chain_live [OF es(1), of a] free(3) by blast
  then have ap: "a \<noteq> ?p" "a \<noteq> this" using pin by auto
  define s1 where "s1 = s\<lparr>nodes := (nodes s)(a \<mapsto> \<lparr>val = v, next_node = next_node pn\<rparr>), free_store := fs\<rparr>"
  define s2 where "s2 = s1\<lparr>nodes := (nodes s1)(?p \<mapsto> pn\<lparr>next_node := a\<rparr>)\<rparr>"
  define s3 where "s3 = s2\<lparr>sizes := (sizes s2)(this \<mapsto> n + 1)\<rparr>"
  have r0: "load s ?p = Inr pn" using pn plive by (simp add: load_def)
  have r1: "new_Node T v (next_node pn) s = (Inr a, s1)"
    using free nt by (simp add: new_Node_def s1_def)
  have r2: "set_next_node ?p a s1 = Inr s2"
    using pn plive ap by (simp add: set_next_node_def load_def s1_def s2_def)
  have r3: "inc_size this s2 = (Inr (), s3)"
    using h(4) by (simp add: inc_size_def s1_def s2_def s3_def)
  have run: "InsertAfter_p0 T this pos v s = (Inr \<lparr>nodeptr = a\<rparr>, s3)"
    using r0 r1 r2 r3 by (simp add: InsertAfter_p0_def)
  have nodes3: "nodes s3 = (nodes s)(a \<mapsto> \<lparr>val = v, next_node = next_node pn\<rparr>, ?es ! k \<mapsto> pn\<lparr>next_node := a\<rparr>)"
    by (simp add: s3_def s2_def s1_def pos)
  have pn': "nodes s (?es ! k) = Some pn" using pn pos by simp
  have ch: "chain s3 this (take (Suc k) ?es @ a # drop (Suc k) ?es)"
    by (rule chain_insert [OF es(1) kl pn' a_notin free(2) nodes3])
  then have ch': "chain s3 this (this # take k as @ a # drop k as)" by simp
  have dist: "distinct (this # take k as @ a # drop k as)" "nullptr \<notin> set (this # take k as @ a # drop k as)"
    using ch' by (rule chain_distinct, rule chain_not_null)
  have len: "length (take k as @ a # drop k as) = length as + 1" using k by simp
  have da: "distinct (a # as)" "nullptr \<notin> set (a # as)"
    using a_notin es free(2) by auto
  have sz: "unat (n + 1) = unat n + 1" by (rule size_plus_one [OF h(5) da])
  have il: "is_list s3 this (take k as @ a # drop k as)"
    using ch' dist sz h(5) len
    by (auto simp: is_list_def chain_Cons_iff load_def s3_def split: option.splits)
  have vals: "contents s3 (take k as) = contents s (take k as)" "contents s3 (drop k as) = contents s (drop k as)"
    "contents s3 [a] = [v]"
    using a_notin chain_live [OF h(2)] pn ap
    by (auto simp: contents_def nodes3 pos dest: in_set_takeD in_set_dropD)
  have cont: "contents s3 (take k as @ a # drop k as) = take k (contents s as) @ v # drop k (contents s as)"
    using vals by (simp add: contents_def take_map drop_map)
  have frame: "\<forall>x. x \<noteq> a \<longrightarrow> x \<noteq> ?p \<longrightarrow> nodes s3 x = nodes s x"
    by (simp add: nodes3 pos)
  show ?thesis
    apply (rule exI [of _ s3], rule exI [of _ n])
    using run il cont h(4) sz frame plive
    by (simp add: InsertAfter_def s3_def s2_def s1_def)
qed

lemma size_minus_one:
  fixes n :: size_t
  assumes "unat n = length as" "as \<noteq> []"
  shows "n \<noteq> 0" "unat (n - 1) = unat n - 1"
proof -
  show "n \<noteq> 0" using assms by auto
  then show "unat (n - 1) = unat n - 1" by (rule unat_minus_one)
qed

lemma EraseAfter_list:
  assumes l: "is_list s this as" and k: "k < length as" and pos: "nodeptr pos = (this # as) ! k"
  shows "\<exists>s' n pn dn. EraseAfter this pos s = (Inr \<lparr>nodeptr = next_node dn\<rparr>, s') \<and>
           EraseAfter_p0 this pos s = (Inr \<lparr>nodeptr = next_node dn\<rparr>, s') \<and>
           is_list s' this (take k as @ drop (Suc k) as) \<and>
           contents s' (take k as @ drop (Suc k) as) = take k (contents s as) @ drop (Suc k) (contents s as) \<and>
           sizes s this = Some n \<and> sizes s' = (sizes s)(this \<mapsto> n - 1) \<and> unat (n - 1) = unat n - 1 \<and>
           nodes s (nodeptr pos) = Some pn \<and> next_node pn = as ! k \<and> nodes s (as ! k) = Some dn \<and>
           chain s (next_node dn) (drop (Suc k) as) \<and>
           nodes s' = ((nodes s)(nodeptr pos \<mapsto> pn\<lparr>next_node := next_node dn\<rparr>))(as ! k := None) \<and>
           free_store s' = as ! k # free_store s"
proof -
  let ?es = "this # as"
  let ?p = "nodeptr pos"
  let ?d = "as ! k"
  from l obtain h n where h: "load s this = Inr h" "chain s (next_node h) as" "this \<notin> set as"
    "sizes s this = Some n" "unat n = length as" by (rule is_listD)
  note es = is_list_chain_head [OF l]
  have kl: "Suc k < length ?es" "k < length ?es" using k by simp_all
  have pin: "?p \<in> set ?es" unfolding pos using kl(2) by (rule nth_mem)
  have din: "?d \<in> set as" using k by simp
  have plive: "?p \<noteq> nullptr" "?d \<noteq> nullptr"
    using es(3) pin din by auto
  obtain pn where pn: "nodes s ?p = Some pn" using chain_live [OF es(1) pin] by auto
  obtain dn where dn: "nodes s ?d = Some dn" using chain_live [OF h(2) din] by auto
  have split: "?es = take k ?es @ ?p # ?d # drop (Suc (Suc k)) ?es"
    using kl pos by (metis Cons_nth_drop_Suc append_take_drop_id nth_Cons_Suc)
  have pd: "?p \<noteq> ?d"
    using es(2) by (subst (asm) split) auto
  have "chain s ?p (?p # ?d # drop (Suc (Suc k)) ?es)"
    using es(1) by (subst (asm) split) (rule chain_append)
  then have nx: "next_node pn = ?d" "chain s (next_node dn) (drop (Suc k) as)"
    using pn dn by (auto simp: chain_Cons_iff)
  define s1 where "s1 = s\<lparr>nodes := (nodes s)(?p \<mapsto> pn\<lparr>next_node := next_node dn\<rparr>)\<rparr>"
  define s2 where "s2 = delete_Node ?d s1"
  define s3 where "s3 = s2\<lparr>sizes := (sizes s2)(this \<mapsto> n - 1)\<rparr>"
  have r0: "load s ?p = Inr pn" "load s (next_node pn) = Inr dn"
    using pn dn plive nx by (simp_all add: load_def)
  have r1: "set_next_node ?p (next_node dn) s = Inr s1"
    using r0 by (simp add: set_next_node_def s1_def)
  have r2: "dec_size this s2 = (Inr (), s3)"
    using h(4) by (simp add: dec_size_def s1_def s2_def s3_def delete_Node_def)
  have r3: "load s3 ?p = Inr (pn\<lparr>next_node := next_node dn\<rparr>)"
    using plive pd by (simp add: load_def s1_def s2_def s3_def delete_Node_def)
  have run: "EraseAfter_p0 this pos s = (Inr \<lparr>nodeptr = next_node dn\<rparr>, s3)"
    using r0 r1 r2 r3 nx by (simp add: EraseAfter_p0_def s2_def)
  have nodes3: "nodes s3 = ((nodes s)(?es ! k \<mapsto> pn\<lparr>next_node := next_node dn\<rparr>))(?es ! Suc k := None)"
    by (simp add: s3_def s2_def s1_def pos delete_Node_def)
  have "chain s3 this (take (Suc k) ?es @ drop (Suc (Suc k)) ?es)"
    using pn dn pos by (intro chain_erase [OF es(1) kl(1) _ _ nodes3]) simp_all
  then have ch': "chain s3 this (this # take k as @ drop (Suc k) as)" by simp
  have dist: "distinct (this # take k as @ drop (Suc k) as)"
    using ch' by (rule chain_distinct)
  have len: "length (take k as @ drop (Suc k) as) = length as - 1" using k by simp
  have ne: "as \<noteq> []" using k by auto
  note sz = size_minus_one [OF h(5) ne]
  have il: "is_list s3 this (take k as @ drop (Suc k) as)"
    using ch' dist sz h(5) len
    by (auto simp: is_list_def chain_Cons_iff load_def s3_def split: option.splits)
  have "distinct as" using es(2) by simp
  then have "distinct (take k as @ ?d # drop (Suc k) as)"
    using id_take_nth_drop [OF k] by simp
  then have dnot: "?d \<notin> set (take k as)" "?d \<notin> set (drop (Suc k) as)"
    by simp_all
  have vals: "contents s3 (take k as) = contents s (take k as)"
    "contents s3 (drop (Suc k) as) = contents s (drop (Suc k) as)"
    using dnot pn
    by (auto simp: contents_def nodes3 pos)
  have cont: "contents s3 (take k as @ drop (Suc k) as) = take k (contents s as) @ drop (Suc k) (contents s as)"
    using vals by (simp add: contents_def take_map drop_map)
  have gs: "GetSize this s = Inr n" using h(4) by (simp add: GetSize_def)
  show ?thesis
    apply (rule exI [of _ s3], rule exI [of _ n], rule exI [of _ pn], rule exI [of _ dn])
    using run il cont h(4) sz plive pn dn nx gs
    by (simp add: EraseAfter_def s3_def s2_def s1_def delete_Node_def)
qed

subsection \<open>Framing the invariant\<close>

text \<open>
  A call that changes the lists \<open>L\<close> only keeps the invariant when it leaves the nodes of
  every other list alone, the lists of \<open>L\<close> are well formed again with chains inside a
  region \<open>N\<close> that no other list enters, and the free store is sound afterwards.
\<close>

lemma is_list_frame:
  assumes "is_list s l as" "sizes s' l = sizes s l" "\<And>x. x \<in> set (l # as) \<Longrightarrow> nodes s' x = nodes s x"
  shows "is_list s' l as"
proof -
  from assms(1) obtain h n where h: "load s l = Inr h" "chain s (next_node h) as" "l \<notin> set as"
    "sizes s l = Some n" "unat n = length as" by (rule is_listD)
  have "chain s' (next_node h) as" using h(2) assms(3) by (intro chain_frame [OF h(2)]) simp
  moreover have "load s' l = Inr h" using h(1) assms(3) [of l] by (simp add: load_Inr_iff)
  ultimately show ?thesis using h assms(2) by (simp add: is_list_def)
qed

lemma is_list_live: "is_list s l as \<Longrightarrow> x \<in> set (l # as) \<Longrightarrow> nodes s x \<noteq> None \<and> x \<noteq> nullptr"
  using is_list_chain_head [of s l as] chain_live [of s l "l # as" x] by auto

lemma is_list_sizes: "is_list s l as \<Longrightarrow> sizes s l \<noteq> None"
  by (auto elim: is_listD)

lemma wf_footprints_disjoint:
  assumes "well_formed s" "is_list s l as" "is_list s l' bs" "l \<noteq> l'"
  shows "set (l # as) \<inter> set (l' # bs) = {}"
proof -
  have "l \<notin> set bs" "l' \<notin> set as" "set as \<inter> set bs = {}"
    using assms is_list_sizes unfolding well_formed_def by blast+
  then show ?thesis using assms(4) by auto
qed

lemma wf_footprint_not_free:
  assumes "well_formed s" "is_list s l as"
  shows "set (l # as) \<inter> set (free_store s) = {}"
  using assms is_list_live [OF assms(2)] unfolding well_formed_def heap_ok_def by blast

lemma wf_frame:
  assumes inv: "well_formed s" and ok: "heap_ok s'"
    and sizes: "\<And>l. l \<notin> L \<Longrightarrow> sizes s' l = sizes s l"
    and frame: "\<And>l as x. l \<notin> L \<Longrightarrow> is_list s l as \<Longrightarrow> x \<in> set (l # as) \<Longrightarrow> nodes s' x = nodes s x"
    and target: "\<And>l. l \<in> L \<Longrightarrow> sizes s' l \<noteq> None \<Longrightarrow> \<exists>as. is_list s' l as \<and> set as \<subseteq> N"
    and apart: "\<And>l as. l \<notin> L \<Longrightarrow> is_list s l as \<Longrightarrow> set (l # as) \<inter> N = {}"
    and heads: "\<And>l l' as. l \<in> L \<Longrightarrow> l' \<in> L \<Longrightarrow> is_list s' l as \<Longrightarrow> l' \<notin> set as"
    and others: "\<And>l l' as. l \<notin> L \<Longrightarrow> l' \<in> L \<Longrightarrow> is_list s l as \<Longrightarrow> sizes s' l' \<noteq> None \<Longrightarrow> l' \<notin> set as"
    and tdisj: "\<And>l l' as as'. l \<in> L \<Longrightarrow> l' \<in> L \<Longrightarrow> l \<noteq> l' \<Longrightarrow> is_list s' l as \<Longrightarrow> is_list s' l' as'
                 \<Longrightarrow> set as \<inter> set as' = {}"
  shows "well_formed s'"
proof -
  have old: "\<exists>bs. is_list s l bs \<and> is_list s' l bs" if "l \<notin> L" "sizes s' l \<noteq> None" for l
  proof -
    from that sizes have "sizes s l \<noteq> None" by simp
    with inv obtain bs where bs: "is_list s l bs" unfolding well_formed_def by blast
    have "is_list s' l bs"
      using bs sizes [OF that(1)] frame [OF that(1) bs] by (rule is_list_frame)
    with bs show ?thesis by blast
  qed
  have old': "is_list s l cs" if "l \<notin> L" "is_list s' l cs" for l cs
  proof -
    from old [OF that(1) is_list_sizes [OF that(2)]] obtain bs where "is_list s l bs" "is_list s' l bs"
      by blast
    with that(2) show ?thesis using is_list_unique by metis
  qed
  have new: "set cs \<subseteq> N" if "l \<in> L" "is_list s' l cs" for l cs
    using target [OF that(1) is_list_sizes [OF that(2)]] that(2) is_list_unique by metis
  have c1: "\<forall>l. sizes s' l \<noteq> None \<longrightarrow> (\<exists>as. is_list s' l as)"
    using old target by blast
  have c2: "\<forall>l as l'. is_list s' l as \<longrightarrow> sizes s' l' \<noteq> None \<longrightarrow> l' \<notin> set as"
  proof (intro allI impI)
    fix l as l' assume a: "is_list s' l as" "sizes s' l' \<noteq> None"
    show "l' \<notin> set as"
    proof (cases "l \<in> L")
      case True
      show ?thesis
      proof (cases "l' \<in> L")
        case True
        with \<open>l \<in> L\<close> a show ?thesis using heads by blast
      next
        case False
        from old [OF False a(2)] obtain bs where "is_list s l' bs" by blast
        from apart [OF False this] new [OF \<open>l \<in> L\<close> a(1)] show ?thesis by auto
      qed
    next
      case False
      note ol = old' [OF False a(1)]
      show ?thesis
      proof (cases "l' \<in> L")
        case True
        from others [OF False True ol a(2)] show ?thesis .
      next
        case False
        with a sizes have "sizes s l' \<noteq> None" by simp
        with inv ol show ?thesis unfolding well_formed_def by blast
      qed
    qed
  qed
  have c3: "\<forall>l as l' as'. is_list s' l as \<longrightarrow> is_list s' l' as' \<longrightarrow> l \<noteq> l' \<longrightarrow> set as \<inter> set as' = {}"
  proof (intro allI impI)
    fix l as l' as' assume a: "is_list s' l as" "is_list s' l' as'" "l \<noteq> l'"
    consider "l \<in> L" "l' \<in> L" | "l \<in> L" "l' \<notin> L" | "l \<notin> L" "l' \<in> L" | "l \<notin> L" "l' \<notin> L" by blast
    then show "set as \<inter> set as' = {}"
    proof cases
      case 1
      with a tdisj show ?thesis by blast
    next
      case 2
      from apart [OF 2(2) old' [OF 2(2) a(2)]] new [OF 2(1) a(1)] show ?thesis by auto
    next
      case 3
      from apart [OF 3(1) old' [OF 3(1) a(1)]] new [OF 3(2) a(2)] show ?thesis by auto
    next
      case 4
      from old' [OF 4(1) a(1)] old' [OF 4(2) a(2)] a(3) inv show ?thesis unfolding well_formed_def by blast
    qed
  qed
  show ?thesis unfolding well_formed_def using ok c1 c2 c3 by blast
qed

subsection \<open>Swap\<close>

text \<open>
  \<^verbatim>\<open>swap\<close> of the unnamed variant on two well-formed lists, neither \<^verbatim>\<open>head_\<close> a node of the
  other: afterwards each list has the chain, and with it the traversal and the size, the other
  had before. Swapping a list with itself changes nothing.
\<close>

lemma swap_p0_lists:
  assumes a: "is_list s A as" and b: "is_list s B bs" and ne: "A \<noteq> B"
    and ab: "A \<notin> set bs" "B \<notin> set as"
  shows "\<exists>s' ha hb n m. swap_p0 A B s = (Inr (), s') \<and> is_list s' A bs \<and> is_list s' B as \<and>
           nodes s A = Some ha \<and> nodes s B = Some hb \<and> sizes s A = Some n \<and> sizes s B = Some m \<and>
           nodes s' = (nodes s)(A \<mapsto> ha\<lparr>next_node := next_node hb\<rparr>, B \<mapsto> hb\<lparr>next_node := next_node ha\<rparr>) \<and>
           sizes s' = (sizes s)(A \<mapsto> m, B \<mapsto> n) \<and> free_store s' = free_store s"
proof -
  from a obtain ha n where ha: "load s A = Inr ha" "chain s (next_node ha) as" "A \<notin> set as"
    "sizes s A = Some n" "unat n = length as" by (rule is_listD)
  from b obtain hb m where hb: "load s B = Inr hb" "chain s (next_node hb) bs" "B \<notin> set bs"
    "sizes s B = Some m" "unat m = length bs" by (rule is_listD)
  define s' where "s' = s\<lparr>nodes := (nodes s)(A \<mapsto> ha\<lparr>next_node := next_node hb\<rparr>, B \<mapsto> hb\<lparr>next_node := next_node ha\<rparr>),
     sizes := (sizes s)(A \<mapsto> m, B \<mapsto> n)\<rparr>"
  have la: "A \<noteq> nullptr" "nodes s A = Some ha" "B \<noteq> nullptr" "nodes s B = Some hb"
    using ha hb by (auto simp: load_Inr_iff)
  have run: "swap_p0 A B s = (Inr (), s')"
    using la ha hb ne
    by (simp add: swap_p0_def set_next_node_def load_def GetSize_def set_size_def s'_def)
  have ca: "chain s' (next_node hb) bs"
    using ab hb by (intro chain_frame [OF hb(2)]) (auto simp: s'_def)
  have cb: "chain s' (next_node ha) as"
    using ab ha by (intro chain_frame [OF ha(2)]) (auto simp: s'_def)
  have "is_list s' A bs" "is_list s' B as"
    using ca cb la ab ha hb ne by (auto simp: is_list_def load_def s'_def)
  then show ?thesis
    using run la ha hb by (auto simp: s'_def)
qed

lemma swap_p0_self:
  assumes "is_list s A as"
  shows "swap_p0 A A s = (Inr (), s)"
proof -
  from assms obtain ha n where ha: "load s A = Inr ha" "sizes s A = Some n" by (rule is_listD)
  then have la: "A \<noteq> nullptr" "nodes s A = Some ha" by (auto simp: load_Inr_iff)
  have "(nodes s)(A \<mapsto> ha) = nodes s" "(sizes s)(A \<mapsto> n) = sizes s"
    using la ha by (auto simp: fun_upd_idem)
  then show ?thesis
    using la ha
    by (simp add: swap_p0_def set_next_node_def load_def GetSize_def set_size_def)
qed

text \<open>
  C1. \<^verbatim>\<open>swap\<close> of \<^verbatim>\<open>single-linked-list.h\<close> on the lists \<^verbatim>\<open>{1, 2}\<close> and
  \<^verbatim>\<open>{1, 2, 3}\<close>: afterwards each list has the traversal and the size it had before, where
  \<^verbatim>\<open>swap\<close> of the unnamed variant has exchanged them.
\<close>

theorem swap_exchanges_nothing:
  "(case swap 1 2 two_lists of
      (r, s') \<Rightarrow> r = Inr () \<and>
        traverse 1 s' = Some (Inr [1, 2]) \<and> traverse 2 s' = Some (Inr [1, 2, 3]) \<and>
        GetSize 1 s' = Inr 2 \<and> GetSize 2 s' = Inr 3) \<and>
   (case swap_p0 1 2 two_lists of
      (r, s') \<Rightarrow> r = Inr () \<and>
        traverse 1 s' = Some (Inr [1, 2, 3]) \<and> traverse 2 s' = Some (Inr [1, 2]) \<and>
        GetSize 1 s' = Inr 3 \<and> GetSize 2 s' = Inr 2)"
proof -
  have "swap 1 2 two_lists = (Inr (), two_lists)"
    by (simp add: swap_def two_lists_eq load_def nullptr_def)
  moreover have "traverse 1 two_lists = Some (Inr [1, 2])" "traverse 2 two_lists = Some (Inr [1, 2, 3])"
    "GetSize 1 two_lists = Inr 2" "GetSize 2 two_lists = Inr 3"
    by (simp_all add: two_lists_eq traverse_def traverse_loop.simps walk_defs)
  moreover have "\<exists>s'. swap_p0 1 2 two_lists = (Inr (), s') \<and>
        traverse 1 s' = Some (Inr [1, 2, 3]) \<and> traverse 2 s' = Some (Inr [1, 2]) \<and>
        GetSize 1 s' = Inr 3 \<and> GetSize 2 s' = Inr 2"
    by (simp add: swap_p0_def set_next_node_def set_size_def two_lists_eq traverse_def
        traverse_loop.simps walk_defs)
  ultimately show ?thesis by auto
qed

subsection \<open>Construction, insertion, removal\<close>

text \<open>
  C5. Constructing a list from a sequence \<open>vs\<close> (in either variant) at an address that is not
  free-store memory, when the free store has a distinct non-null address for every element and
  no element's copy constructor throws: the constructor returns, the traversal of the new list
  is \<open>vs\<close>, and \<^verbatim>\<open>GetSize()\<close> is the length of \<open>vs\<close>.
\<close>

theorem SingleLinkedList_init_traversal:
  assumes "distinct (free_store s)" and "nullptr \<notin> set (free_store s)"
    and "this \<notin> set (free_store s)" and "this \<noteq> nullptr"
    and "length vs \<le> length (free_store s)" and "\<forall>v \<in> set vs. \<not> copy_throws T v"
  shows "\<exists>s' n. SingleLinkedList_init T this vs s = (Inr (), s') \<and>
           SingleLinkedList_init_p0 T this vs s = (Inr (), s') \<and>
           traverse this s' = Some (Inr vs) \<and>
           GetSize this s' = Inr n \<and> unat n = length vs"
proof -
  from SingleLinkedList_init_builds [OF assms]
  obtain s' where s': "SingleLinkedList_init T this vs s = (Inr (), s')"
    "SingleLinkedList_init_p0 T this vs s = (Inr (), s')"
    "is_list s' this (take (length vs) (free_store s))"
    "contents s' (take (length vs) (free_store s)) = vs"
    by blast
  from s'(3) obtain n where n: "sizes s' this = Some n" "unat n = length (take (length vs) (free_store s))"
    by (auto elim: is_listD)
  have "traverse this s' = Some (Inr vs)"
    using traverse_is_list [OF s'(3)] s'(4) by simp
  moreover have "GetSize this s' = Inr n" "unat n = length vs"
    using n assms(5) by (simp_all add: GetSize_def)
  ultimately show ?thesis using s' by blast
qed

theorem SingleLinkedList_init_traversal_witness:
  "\<exists>s' n. SingleLinkedList_init int_Type 1 [1, 2, 3]
             \<lparr>nodes = Map.empty, sizes = Map.empty, free_store = [3, 4, 5, 6]\<rparr> = (Inr (), s') \<and>
           SingleLinkedList_init_p0 int_Type 1 [1, 2, 3]
             \<lparr>nodes = Map.empty, sizes = Map.empty, free_store = [3, 4, 5, 6]\<rparr> = (Inr (), s') \<and>
           traverse 1 s' = Some (Inr [1, 2, 3]) \<and>
           GetSize 1 s' = Inr n \<and> unat n = length [1, 2, 3 :: int]"
proof -
  have "distinct [3, 4, 5, 6 :: addr]" "nullptr \<notin> set [3, 4, 5, 6 :: addr]"
    "1 \<notin> set [3, 4, 5, 6 :: addr]" "(1 :: addr) \<noteq> nullptr"
    "length [1, 2, 3 :: int] \<le> length [3, 4, 5, 6 :: addr]"
    "\<forall>v \<in> set [1, 2, 3]. \<not> copy_throws int_Type v"
    by (simp_all add: nullptr_def int_Type_def)
  then show ?thesis
    using SingleLinkedList_init_traversal
      [of "\<lparr>nodes = Map.empty, sizes = Map.empty, free_store = [3, 4, 5, 6]\<rparr> :: int state"
        1 "[1, 2, 3]" int_Type]
    by (simp del: distinct.simps set_simps list.size)
qed

text \<open>
  C6. \<open>pos\<close> is position \<open>k\<close> of \<^verbatim>\<open>head_\<close> followed by the nodes of the list: the
  before-begin position for \<open>k = 0\<close>, the element of traversal index \<open>k - 1\<close> otherwise. When
  the next free address holds no live node and copying \<open>v\<close> does not throw,
  \<^verbatim>\<open>InsertAfter(pos, v)\<close> returns (in either variant); the traversal afterwards is the old one
  with \<open>v\<close> inserted at index \<open>k\<close>, so every other element keeps its place relative to the
  others; the returned iterator dereferences to \<open>v\<close>; and the size has grown by exactly 1,
  without wrapping.
\<close>

theorem InsertAfter_inserts_at_next_index:
  assumes "is_list s this as" and "k \<le> length as" and "nodeptr pos = (this # as) ! k"
    and "free_store s = a # fs" and "a \<noteq> nullptr" and "nodes s a = None"
    and "\<not> copy_throws T v"
  shows "\<exists>it s' n. InsertAfter T this pos v s = (Inr it, s') \<and>
           InsertAfter_p0 T this pos v s = (Inr it, s') \<and>
           traverse this s = Some (Inr (contents s as)) \<and>
           traverse this s' = Some (Inr (take k (contents s as) @ v # drop k (contents s as))) \<and>
           operator_deref s' it = Inr v \<and>
           GetSize this s = Inr n \<and> GetSize this s' = Inr (n + 1) \<and> unat (n + 1) = unat n + 1"
proof -
  from InsertAfter_list [OF assms]
  obtain s' n where s': "InsertAfter T this pos v s = (Inr \<lparr>nodeptr = a\<rparr>, s')"
    "InsertAfter_p0 T this pos v s = (Inr \<lparr>nodeptr = a\<rparr>, s')"
    "is_list s' this (take k as @ a # drop k as)"
    "contents s' (take k as @ a # drop k as) = take k (contents s as) @ v # drop k (contents s as)"
    "sizes s this = Some n" "sizes s' = (sizes s)(this \<mapsto> n + 1)" "unat (n + 1) = unat n + 1"
    by blast
  have t: "traverse this s' = Some (Inr (take k (contents s as) @ v # drop k (contents s as)))"
    using traverse_is_list [OF s'(3)] s'(4) by simp
  have "a \<in> set (this # take k as @ a # drop k as)" by simp
  from is_list_live [OF s'(3) this] obtain an where an: "nodes s' a = Some an" by auto
  have "contents s' (take k as @ a # drop k as) ! k = val an"
    using an assms(2) by (simp add: contents_def nth_append)
  moreover have "(take k (contents s as) @ v # drop k (contents s as)) ! k = v"
    using assms(2) by (simp add: nth_append contents_def)
  ultimately have "val an = v" using s'(4) by simp
  then have d: "operator_deref s' \<lparr>nodeptr = a\<rparr> = Inr v"
    using an assms(5) by (simp add: iter_ops load_Inr_iff)
  show ?thesis
    using s' t d traverse_is_list [OF assms(1)] by (auto simp: GetSize_def)
qed

theorem InsertAfter_inserts_at_next_index_witness:
  "\<exists>it s' n. InsertAfter int_Type 1 \<lparr>nodeptr = 3\<rparr> 99 two_lists = (Inr it, s') \<and>
     InsertAfter_p0 int_Type 1 \<lparr>nodeptr = 3\<rparr> 99 two_lists = (Inr it, s') \<and>
     traverse 1 two_lists = Some (Inr [1, 2]) \<and>
     traverse 1 s' = Some (Inr [1, 99, 2]) \<and>
     operator_deref s' it = Inr 99 \<and>
     GetSize 1 two_lists = Inr n \<and> GetSize 1 s' = Inr (n + 1) \<and> unat (n + 1) = unat n + 1"
proof -
  have l: "is_list two_lists 1 [3, 4]"
    by (simp add: two_lists_eq is_list_def chain.simps(2) load_def nullptr_def)
  have c: "contents two_lists [3, 4] = [1, 2]"
    by (simp add: two_lists_eq contents_def)
  have f: "free_store two_lists = 8 # []" "(8 :: addr) \<noteq> nullptr" "nodes two_lists 8 = None"
    "\<not> copy_throws int_Type 99"
    by (simp_all add: two_lists_eq nullptr_def int_Type_def)
  show ?thesis
    using InsertAfter_inserts_at_next_index [OF l, of 1 "\<lparr>nodeptr = 3\<rparr>" 8 "[]" int_Type 99] f c
    by simp
qed

text \<open>
  C7. \<open>pos\<close> is position \<open>k\<close> of \<^verbatim>\<open>head_\<close> followed by the nodes of the list and has a
  successor (\<open>k\<close> is less than the number of elements). \<^verbatim>\<open>EraseAfter(pos)\<close> returns (in
  either variant); the node after \<open>pos\<close> is gone from the store and its value from the
  traversal; \<open>pos\<close> is linked to what followed the removed node; the returned iterator points
  there, and is the end iterator exactly when nothing followed; the size has shrunk by
  exactly 1.
\<close>

theorem EraseAfter_removes_next:
  assumes "is_list s this as" and "k < length as" and "nodeptr pos = (this # as) ! k"
  shows "\<exists>it s' n pn dn pn'. EraseAfter this pos s = (Inr it, s') \<and>
           EraseAfter_p0 this pos s = (Inr it, s') \<and>
           traverse this s = Some (Inr (contents s as)) \<and>
           traverse this s' = Some (Inr (take k (contents s as) @ drop (Suc k) (contents s as))) \<and>
           load s (nodeptr pos) = Inr pn \<and> next_node pn = as ! k \<and> load s (as ! k) = Inr dn \<and>
           nodes s' (as ! k) = None \<and>
           load s' (nodeptr pos) = Inr pn' \<and> next_node pn' = next_node dn \<and>
           nodeptr it = next_node pn' \<and> (it = end_it) = (Suc k = length as) \<and>
           GetSize this s = Inr n \<and> GetSize this s' = Inr (n - 1) \<and> unat n = unat (n - 1) + 1"
proof -
  from EraseAfter_list [OF assms]
  obtain s' n pn dn where s': "EraseAfter this pos s = (Inr \<lparr>nodeptr = next_node dn\<rparr>, s')"
    "EraseAfter_p0 this pos s = (Inr \<lparr>nodeptr = next_node dn\<rparr>, s')"
    "is_list s' this (take k as @ drop (Suc k) as)"
    "contents s' (take k as @ drop (Suc k) as) = take k (contents s as) @ drop (Suc k) (contents s as)"
    "sizes s this = Some n" "sizes s' = (sizes s)(this \<mapsto> n - 1)" "unat (n - 1) = unat n - 1"
    "nodes s (nodeptr pos) = Some pn" "next_node pn = as ! k" "nodes s (as ! k) = Some dn"
    "chain s (next_node dn) (drop (Suc k) as)"
    "nodes s' = ((nodes s)(nodeptr pos \<mapsto> pn\<lparr>next_node := next_node dn\<rparr>))(as ! k := None)"
    by blast
  from assms(1) obtain n0 where "sizes s this = Some n0" "unat n0 = length as" by (auto elim: is_listD)
  with s'(5) assms(2) have n: "unat n = length as" "unat n \<noteq> 0" by auto
  have pin: "nodeptr pos \<in> set (this # as)" unfolding assms(3) using assms(2) by (intro nth_mem) simp
  have din: "as ! k \<in> set (this # as)" using assms(2) by simp
  have nn: "nodeptr pos \<noteq> nullptr" "as ! k \<noteq> nullptr"
    using is_list_live [OF assms(1) pin] is_list_live [OF assms(1) din] by simp_all
  have "nodeptr pos \<in> set (this # take k as @ drop (Suc k) as)"
    unfolding assms(3) using assms(2) by (cases k) (auto simp: in_set_conv_nth nth_append intro!: exI [of _ "k - 1"])
  from is_list_live [OF s'(3) this] have pne: "nodeptr pos \<noteq> as ! k"
    using s'(12) by auto
  have e: "(next_node dn = nullptr) = (Suc k = length as)"
    using chain_hd [OF s'(11)] assms(2) by auto
  have t: "traverse this s' = Some (Inr (take k (contents s as) @ drop (Suc k) (contents s as)))"
    using traverse_is_list [OF s'(3)] s'(4) by simp
  show ?thesis
    apply (rule exI [of _ "\<lparr>nodeptr = next_node dn\<rparr>"], rule exI [of _ s'], rule exI [of _ n],
        rule exI [of _ pn], rule exI [of _ dn], rule exI [of _ "pn\<lparr>next_node := next_node dn\<rparr>"])
    using s' t traverse_is_list [OF assms(1)] nn pne e n
    by (simp add: GetSize_def load_Inr_iff end_it_def)
qed

theorem EraseAfter_removes_next_witness:
  "\<exists>it s' n pn dn pn'. EraseAfter 2 \<lparr>nodeptr = 5\<rparr> two_lists = (Inr it, s') \<and>
     EraseAfter_p0 2 \<lparr>nodeptr = 5\<rparr> two_lists = (Inr it, s') \<and>
     traverse 2 two_lists = Some (Inr [1, 2, 3]) \<and>
     traverse 2 s' = Some (Inr [1, 3]) \<and>
     load two_lists 5 = Inr pn \<and> next_node pn = 6 \<and> load two_lists 6 = Inr dn \<and>
     nodes s' 6 = None \<and>
     load s' 5 = Inr pn' \<and> next_node pn' = next_node dn \<and>
     nodeptr it = next_node pn' \<and> it \<noteq> end_it \<and>
     GetSize 2 two_lists = Inr n \<and> GetSize 2 s' = Inr (n - 1) \<and> unat n = unat (n - 1) + 1"
proof -
  have l: "is_list two_lists 2 [5, 6, 7]"
    by (simp add: two_lists_eq is_list_def chain.simps(2) load_def nullptr_def)
  have c: "contents two_lists [5, 6, 7] = [1, 2, 3]"
    by (simp add: two_lists_eq contents_def)
  show ?thesis
    using EraseAfter_removes_next [OF l, of 1 "\<lparr>nodeptr = 5\<rparr>"] c
    by simp
qed

subsection \<open>The invariant is kept by every operation\<close>

text \<open>
  The case of one list \<open>this\<close>: \<open>R\<close> is what the call may write to, the list's own nodes
  and \<^verbatim>\<open>head_\<close>; its new chain lies in \<open>R\<close> or in nodes that did not exist before.
\<close>

lemma wf_frame_one:
  assumes inv: "well_formed s" and ok: "heap_ok s'" and inR: "this \<in> R"
    and region: "\<And>l bs. l \<noteq> this \<Longrightarrow> is_list s l bs \<Longrightarrow> set (l # bs) \<inter> R = {}"
    and sizes: "\<And>l. l \<noteq> this \<Longrightarrow> sizes s' l = sizes s l"
    and frame: "\<And>x. x \<notin> R \<Longrightarrow> nodes s x \<noteq> None \<Longrightarrow> nodes s' x = nodes s x"
    and target: "sizes s' this \<noteq> None \<Longrightarrow>
                   \<exists>as'. is_list s' this as' \<and> set as' \<subseteq> R \<union> {x. nodes s x = None}"
  shows "well_formed s'"
proof (rule wf_frame [OF inv ok, where L = "{this}" and N = "R \<union> {x. nodes s x = None}"])
  fix l assume "l \<notin> {this}"
  then show "sizes s' l = sizes s l" using sizes by simp
next
  fix l as x assume a: "l \<notin> {this}" "is_list s l as" "x \<in> set (l # as)"
  then have "x \<notin> R" using region [of l as] by auto
  moreover have "nodes s x \<noteq> None" using is_list_live [OF a(2,3)] by simp
  ultimately show "nodes s' x = nodes s x" by (rule frame)
next
  fix l assume "l \<in> {this}" "sizes s' l \<noteq> None"
  then show "\<exists>as. is_list s' l as \<and> set as \<subseteq> R \<union> {x. nodes s x = None}"
    using target by simp
next
  fix l as assume a: "l \<notin> {this}" "is_list s l as"
  have "\<forall>x \<in> set (l # as). nodes s x \<noteq> None" using is_list_live [OF a(2)] by blast
  moreover have "set (l # as) \<inter> R = {}" using region [of l as] a by simp
  ultimately show "set (l # as) \<inter> (R \<union> {x. nodes s x = None}) = {}"
    by blast
next
  fix l l' as assume "l \<in> {this}" "l' \<in> {this}" "is_list s' l as"
  then show "l' \<notin> set as" by (auto elim: is_listD)
next
  fix l l' as assume "l \<notin> {this}" "l' \<in> {this}" "is_list s l as"
  then show "l' \<notin> set as" using region [of l as] inR by auto
next
  fix l l' :: addr and as as' :: "addr list"
  assume "l \<in> {this}" "l' \<in> {this}" "l \<noteq> l'"
  then show "set as \<inter> set as' = {}" by simp
qed

lemma wf_list: "well_formed s \<Longrightarrow> sizes s l \<noteq> None \<Longrightarrow> \<exists>as. is_list s l as"
  unfolding well_formed_def by blast

lemma wf_heap_ok: "well_formed s \<Longrightarrow> heap_ok s"
  unfolding well_formed_def by blast

lemma wf_chain_node_no_size:
  "well_formed s \<Longrightarrow> is_list s l as \<Longrightarrow> x \<in> set as \<Longrightarrow> sizes s x = None"
  unfolding well_formed_def by blast

lemma wf_region:
  assumes "well_formed s" "is_list s this as" "l \<noteq> this" "is_list s l bs"
  shows "set (l # bs) \<inter> set (this # as) = {}"
  using wf_footprints_disjoint [OF assms(1,4,2,3)] .

paragraph \<open>Insertion\<close>

lemma completes_simps [simp]:
  "completes (Inr x)" "completes (Inl e) = (e = BadAlloc \<or> e = CopyThrew)"
  by (simp_all add: completes_def)

lemma InsertAfter_p0_unchanged:
  "InsertAfter_p0 T this pos v s = (Inl e, s') \<Longrightarrow> e = BadAlloc \<or> e = CopyThrew \<Longrightarrow> s' = s"
  by (auto simp: InsertAfter_p0_def set_next_node_def inc_size_def new_Node_def
      load_def split: sum.splits prod.splits option.splits list.splits if_splits)

lemma InsertAfter_p0_returns:
  "InsertAfter_p0 T this pos v s = (Inr it, s') \<Longrightarrow>
   \<exists>a fs. free_store s = a # fs \<and> \<not> copy_throws T v"
  by (auto simp: InsertAfter_p0_def new_Node_def
      split: sum.splits prod.splits option.splits list.splits if_splits)

lemma position_index: "x \<in> set (t # as) \<Longrightarrow> \<exists>k \<le> length as. x = (t # as) ! k"
  by (metis in_set_conv_nth length_Cons less_Suc_eq_le)

lemma InsertAfter_p0_wf:
  assumes inv: "well_formed s" and l: "is_list s this as" and pos: "nodeptr pos \<in> set (this # as)"
    and run: "InsertAfter_p0 T this pos v s = (r, s')" and c: "completes r"
  shows "well_formed s'"
proof (cases r)
  case (Inl e)
  with run c show ?thesis using InsertAfter_p0_unchanged [of T this pos v s e s'] inv by auto
next
  case (Inr it)
  with run have "InsertAfter_p0 T this pos v s = (Inr it, s')" by simp
  from InsertAfter_p0_returns [OF this]
  obtain a fs where f: "free_store s = a # fs" "\<not> copy_throws T v" by blast
  note ok = wf_heap_ok [OF inv]
  from ok f have a: "a \<noteq> nullptr" "nodes s a = None" "a \<notin> set fs" "distinct fs" "nullptr \<notin> set fs"
    "\<forall>x \<in> set fs. nodes s x = None \<and> sizes s x = None"
    by (auto simp: heap_ok_def)
  from position_index [OF pos] obtain k where k: "k \<le> length as" "nodeptr pos = (this # as) ! k"
    by blast
  from InsertAfter_list [OF l k f(1) a(1,2) f(2)]
  obtain s1 n where s1: "InsertAfter_p0 T this pos v s = (Inr \<lparr>nodeptr = a\<rparr>, s1)"
    "is_list s1 this (take k as @ a # drop k as)"
    "sizes s this = Some n" "sizes s1 = (sizes s)(this \<mapsto> n + 1)"
    "\<forall>x. x \<noteq> a \<longrightarrow> x \<noteq> nodeptr pos \<longrightarrow> nodes s1 x = nodes s x"
    "free_store s1 = fs"
    by blast
  with run have eq: "s' = s1" by simp
  have plive: "nodes s (nodeptr pos) \<noteq> None" using is_list_live [OF l pos] by simp
  have ok1: "heap_ok s1"
    unfolding heap_ok_def
  proof (intro conjI ballI)
    show "distinct (free_store s1)" "nullptr \<notin> set (free_store s1)" using s1(6) a by simp_all
    fix x assume x: "x \<in> set (free_store s1)"
    then have xf: "x \<in> set fs" using s1(6) by simp
    then have "x \<noteq> a" "x \<noteq> nodeptr pos" "x \<noteq> this" using a plive s1(3) by auto
    then show "nodes s1 x = None" "sizes s1 x = None" using s1(4,5) a(6) xf by auto
  qed
  have "well_formed s1"
  proof (rule wf_frame_one [OF inv ok1, where this = this and R = "set (this # as)"])
    show "this \<in> set (this # as)" by simp
    show "set (l' # bs) \<inter> set (this # as) = {}" if "l' \<noteq> this" "is_list s l' bs" for l' bs
      using wf_region [OF inv l that] .
    show "sizes s1 l' = sizes s l'" if "l' \<noteq> this" for l' using s1(4) that by simp
    show "nodes s1 x = nodes s x" if "x \<notin> set (this # as)" "nodes s x \<noteq> None" for x
    proof -
      have "x \<noteq> a" "x \<noteq> nodeptr pos" using that pos a(2) by auto
      then show ?thesis using s1(5) by simp
    qed
    show "\<exists>as'. is_list s1 this as' \<and> set as' \<subseteq> set (this # as) \<union> {x. nodes s x = None}"
      using s1(2) a(2) by (intro exI [of _ "take k as @ a # drop k as"]) (auto dest: in_set_takeD in_set_dropD)
  qed
  with eq show ?thesis by simp
qed

lemma InsertAfter_wf:
  assumes "well_formed s" "is_list s this as" "nodeptr pos \<in> set (this # as)"
    "InsertAfter T this pos v s = (r, s')" "completes r"
  shows "well_formed s'"
proof -
  from assms(4,5) have "InsertAfter_p0 T this pos v s = (r, s')"
    by (auto simp: InsertAfter_def split: if_splits)
  from InsertAfter_p0_wf [OF assms(1,2,3) this assms(5)] show ?thesis .
qed

lemma PushFront_InsertAfter_p0:
  "PushFront T this v s =
     (case InsertAfter_p0 T this (before_begin this) v s of (r, s') \<Rightarrow> (map_sum id (\<lambda>it. ()) r, s'))"
  by (auto simp: InsertAfter_p0_def PushFront_def before_begin_def set_next_node_def inc_size_def
      new_Node_def load_def split: sum.splits prod.splits option.splits list.splits if_splits)

lemma PushFront_wf:
  assumes "well_formed s" "sizes s this \<noteq> None" "PushFront T this v s = (r, s')" "completes r"
  shows "well_formed s'"
proof -
  from wf_list [OF assms(1,2)] obtain as where l: "is_list s this as" by blast
  obtain r0 where r0: "InsertAfter_p0 T this (before_begin this) v s = (r0, s')" "r = map_sum id (\<lambda>it. ()) r0"
    using assms(3) by (auto simp: PushFront_InsertAfter_p0 split: prod.splits)
  have "completes r0" using assms(4) r0(2) by (cases r0) auto
  from InsertAfter_p0_wf [OF assms(1) l _ r0(1) this] show ?thesis by (simp add: before_begin_def)
qed

paragraph \<open>Removal\<close>

lemma chain_last_next:
  "chain s p es \<Longrightarrow> es \<noteq> [] \<Longrightarrow> \<exists>n. nodes s (last es) = Some n \<and> next_node n = nullptr"
proof (induction es arbitrary: p)
  case Nil
  then show ?case by simp
next
  case (Cons a es)
  then show ?case by (cases es) (auto simp: chain_Cons_iff)
qed

lemma EraseAfter_p0_wf:
  assumes inv: "well_formed s" and l: "is_list s this as" and pos: "nodeptr pos \<in> set (this # as)"
    and run: "EraseAfter_p0 this pos s = (r, s')" and c: "completes r"
  shows "well_formed s'"
proof -
  from position_index [OF pos] obtain k where k: "k \<le> length as" "nodeptr pos = (this # as) ! k"
    by blast
  note es = is_list_chain_head [OF l]
  have plive: "nodes s (nodeptr pos) \<noteq> None" "nodeptr pos \<noteq> nullptr"
    using is_list_live [OF l pos] by simp_all
  have "k < length as"
  proof (rule ccontr)
    assume "\<not> k < length as"
    with k have "nodeptr pos = last (this # as)"
      by (simp add: last_conv_nth)
    with chain_last_next [OF es(1)] obtain n where "nodes s (nodeptr pos) = Some n" "next_node n = nullptr"
      by auto
    with plive have "EraseAfter_p0 this pos s = (Inl NullDereference, s)"
      by (simp add: EraseAfter_p0_def load_def)
    with run c show False by auto
  qed
  from EraseAfter_list [OF l this k(2)]
  obtain s1 n pn dn where s1: "EraseAfter_p0 this pos s = (Inr \<lparr>nodeptr = next_node dn\<rparr>, s1)"
    "is_list s1 this (take k as @ drop (Suc k) as)"
    "sizes s this = Some n" "sizes s1 = (sizes s)(this \<mapsto> n - 1)"
    "nodes s (nodeptr pos) = Some pn" "nodes s (as ! k) = Some dn"
    "nodes s1 = ((nodes s)(nodeptr pos \<mapsto> pn\<lparr>next_node := next_node dn\<rparr>))(as ! k := None)"
    "free_store s1 = as ! k # free_store s"
    by blast
  with run have eq: "s' = s1" by simp
  let ?d = "as ! k"
  have din: "?d \<in> set as" using \<open>k < length as\<close> by simp
  then have dlive: "?d \<noteq> nullptr" "?d \<noteq> this" "sizes s ?d = None"
    using is_list_live [OF l, of ?d] es(2) wf_chain_node_no_size [OF inv l] by auto
  note ok = wf_heap_ok [OF inv]
  have ok1: "heap_ok s1"
    unfolding heap_ok_def
  proof (intro conjI ballI)
    show "distinct (free_store s1)" "nullptr \<notin> set (free_store s1)"
      using s1(6,8) ok dlive by (auto simp: heap_ok_def)
    fix x assume x: "x \<in> set (free_store s1)"
    then consider "x = ?d" | "x \<in> set (free_store s)" using s1(8) by auto
    then show "nodes s1 x = None"
    proof cases
      case 1 then show ?thesis using s1(7) by simp
    next
      case 2
      then have "nodes s x = None" using ok by (simp add: heap_ok_def)
      then show ?thesis using s1(7) plive by auto
    qed
    from x consider "x = ?d" | "x \<in> set (free_store s)" using s1(8) by auto
    then show "sizes s1 x = None"
    proof cases
      case 1 then show ?thesis using s1(4) dlive by simp
    next
      case 2
      then have "sizes s x = None" using ok by (simp add: heap_ok_def)
      then show ?thesis using s1(3,4) by auto
    qed
  qed
  have "well_formed s1"
  proof (rule wf_frame_one [OF inv ok1, where this = this and R = "set (this # as)"])
    show "this \<in> set (this # as)" by simp
    show "set (l' # bs) \<inter> set (this # as) = {}" if "l' \<noteq> this" "is_list s l' bs" for l' bs
      using wf_region [OF inv l that] .
    show "sizes s1 l' = sizes s l'" if "l' \<noteq> this" for l' using s1(4) that by simp
    show "nodes s1 x = nodes s x" if "x \<notin> set (this # as)" "nodes s x \<noteq> None" for x
    proof -
      have "x \<noteq> ?d" "x \<noteq> nodeptr pos" using that pos din by auto
      then show ?thesis using s1(7) by simp
    qed
    show "\<exists>as'. is_list s1 this as' \<and> set as' \<subseteq> set (this # as) \<union> {x. nodes s x = None}"
      using s1(2) by (intro exI [of _ "take k as @ drop (Suc k) as"]) (auto dest: in_set_takeD in_set_dropD)
  qed
  with eq show ?thesis by simp
qed

lemma EraseAfter_wf:
  assumes "well_formed s" "is_list s this as" "nodeptr pos \<in> set (this # as)"
    "EraseAfter this pos s = (r, s')" "completes r"
  shows "well_formed s'"
proof -
  from assms(4,5) have "EraseAfter_p0 this pos s = (r, s')"
    by (auto simp: EraseAfter_def GetSize_def split: if_splits sum.splits option.splits)
  from EraseAfter_p0_wf [OF assms(1,2,3) this assms(5)] show ?thesis .
qed

lemma PopFront_p0_EraseAfter_p0:
  "EraseAfter_p0 this (before_begin this) s = (Inr it, s') \<Longrightarrow> PopFront_p0 this s = (Inr (), s')"
  by (auto simp: EraseAfter_p0_def PopFront_p0_def before_begin_def Let_def dec_size_def
      split: sum.splits prod.splits option.splits)

lemma PopFront_p0_wf:
  assumes inv: "well_formed s" and live: "sizes s this \<noteq> None" and run: "PopFront_p0 this s = (r, s')"
    and c: "completes r"
  shows "well_formed s'"
proof -
  from wf_list [OF inv live] obtain as where l: "is_list s this as" by blast
  from l obtain h where h: "load s this = Inr h" "chain s (next_node h) as" by (auto elim: is_listD)
  have "as \<noteq> []"
  proof
    assume "as = []"
    with h have "next_node h = nullptr" by simp
    with h have "PopFront_p0 this s = (Inl NullDereference, s)"
      by (simp add: PopFront_p0_def load_def)
    with run c show False by auto
  qed
  then have k: "0 < length as" by simp
  have pb: "nodeptr (before_begin this) = (this # as) ! 0" by (simp add: before_begin_def)
  from EraseAfter_list [OF l k pb]
  obtain s1 and dn :: "'a Node"
    where s1: "EraseAfter_p0 this (before_begin this) s = (Inr \<lparr>nodeptr = next_node dn\<rparr>, s1)"
    by blast
  from PopFront_p0_EraseAfter_p0 [OF this] run have "s' = s1" by simp
  moreover have "well_formed s1"
    using EraseAfter_p0_wf [OF inv l _ s1] by (simp add: before_begin_def)
  ultimately show ?thesis by simp
qed

lemma PopFront_wf:
  assumes "well_formed s" "sizes s this \<noteq> None" "PopFront this s = (r, s')" "completes r"
  shows "well_formed s'"
proof -
  from assms(2) obtain n where n: "GetSize this s = Inr n" by (auto simp: GetSize_def)
  show ?thesis
  proof (cases "n = 0")
    case True
    with n assms(3) have "s' = s" by (simp add: PopFront_def)
    with assms(1) show ?thesis by simp
  next
    case False
    with n assms(3) have "PopFront_p0 this s = (r, s')" by (simp add: PopFront_def)
    from PopFront_p0_wf [OF assms(1,2) this assms(4)] show ?thesis .
  qed
qed

paragraph \<open>Clearing and destruction\<close>

text \<open>On a chain the loop of \<^verbatim>\<open>Clear\<close> deletes exactly the nodes of the chain.\<close>

lemma Clear_loop_chain:
  "chain s p as \<Longrightarrow>
   Clear_loop p s =
     (Inr (), s\<lparr>nodes := (\<lambda>x. if x \<in> set as then None else nodes s x),
                 free_store := rev as @ free_store s\<rparr>)"
proof (induction as arbitrary: p s)
  case Nil
  then show ?case by (subst Clear_loop.simps) simp
next
  case (Cons a as)
  from Cons.prems obtain n where n: "p = a" "a \<noteq> nullptr" "nodes s a = Some n" "chain s (next_node n) as"
    by (auto simp: chain_Cons_iff)
  have "a \<notin> set as" using chain_distinct [OF Cons.prems] by simp
  then have "chain (delete_Node a s) (next_node n) as"
    by (intro chain_frame [OF n(4)]) (auto simp: delete_Node_def)
  from Cons.IH [OF this]
  have "Clear_loop (next_node n) (delete_Node a s) =
     (Inr (), s\<lparr>nodes := (\<lambda>x. if x \<in> set (a # as) then None else nodes s x),
                 free_store := rev (a # as) @ free_store s\<rparr>)"
    by (simp add: delete_Node_def fun_eq_iff)
  then show ?case
    using n by (subst Clear_loop.simps) (simp add: load_def)
qed

lemma Clear_loop_p0_chain:
  "chain s p as \<Longrightarrow> sizes s this = Some n \<Longrightarrow>
   Clear_loop_p0 this p s =
     (Inr (), s\<lparr>nodes := (\<lambda>x. if x \<in> set as then None else nodes s x),
                 free_store := rev as @ free_store s,
                 sizes := (sizes s)(this \<mapsto> n - of_nat (length as))\<rparr>)"
proof (induction as arbitrary: p s n)
  case Nil
  then have "(sizes s)(this \<mapsto> n) = sizes s" by (simp add: fun_upd_idem)
  with Nil show ?case by (subst Clear_loop_p0.simps) simp
next
  case (Cons a as)
  from Cons.prems obtain m where m: "p = a" "a \<noteq> nullptr" "nodes s a = Some m" "chain s (next_node m) as"
    by (auto simp: chain_Cons_iff)
  define s1 where "s1 = (delete_Node a s)\<lparr>sizes := (sizes s)(this \<mapsto> n - 1)\<rparr>"
  have d: "dec_size this (delete_Node a s) = (Inr (), s1)"
    using Cons.prems(2) by (simp add: dec_size_def delete_Node_def s1_def)
  have "a \<notin> set as" using chain_distinct [OF Cons.prems(1)] by simp
  then have c1: "chain s1 (next_node m) as"
    by (intro chain_frame [OF m(4)]) (auto simp: delete_Node_def s1_def)
  have z1: "sizes s1 this = Some (n - 1)" by (simp add: s1_def)
  from Cons.IH [OF c1 z1]
  have "Clear_loop_p0 this (next_node m) s1 =
     (Inr (), s\<lparr>nodes := (\<lambda>x. if x \<in> set (a # as) then None else nodes s x),
                 free_store := rev (a # as) @ free_store s,
                 sizes := (sizes s)(this \<mapsto> n - of_nat (length (a # as)))\<rparr>)"
    by (simp add: delete_Node_def s1_def fun_eq_iff)
  then show ?case
    using m d by (subst Clear_loop_p0.simps) (simp add: load_def)
qed

lemma Clear_list:
  assumes "is_list s this as"
  shows "\<exists>s' h. Clear this s = (Inr (), s') \<and> Clear_p0 this s = (Inr (), s') \<and>
           is_list s' this [] \<and> nodes s this = Some h \<and>
           nodes s' = (\<lambda>x. if x \<in> set as then None else nodes s x)(this \<mapsto> h\<lparr>next_node := nullptr\<rparr>) \<and>
           sizes s' = (sizes s)(this \<mapsto> 0) \<and> free_store s' = rev as @ free_store s"
proof -
  from assms obtain h n where h: "load s this = Inr h" "chain s (next_node h) as" "this \<notin> set as"
    "sizes s this = Some n" "unat n = length as" by (rule is_listD)
  then have hl: "this \<noteq> nullptr" "nodes s this = Some h" by (simp_all add: load_Inr_iff)
  define s' where "s' = s\<lparr>nodes := (\<lambda>x. if x \<in> set as then None else nodes s x)(this \<mapsto> h\<lparr>next_node := nullptr\<rparr>),
     sizes := (sizes s)(this \<mapsto> 0), free_store := rev as @ free_store s\<rparr>"
  have "n - of_nat (length as) = 0"
    using h(5) by (metis of_nat_unat diff_self ucast_id)
  then have p0: "Clear_p0 this s = (Inr (), s')"
    using h hl Clear_loop_p0_chain [OF h(2,4)]
    by (simp add: Clear_p0_def set_next_node_def load_def s'_def)
  have hd: "Clear this s = (Inr (), s')"
    using h hl Clear_loop_chain [OF h(2)]
    by (simp add: Clear_def set_next_node_def set_size_def load_def s'_def)
  have "is_list s' this []"
    using hl by (simp add: is_list_def load_def s'_def)
  then show ?thesis
    using p0 hd hl by (auto simp: s'_def)
qed

lemma Clear_wf_aux:
  assumes inv: "well_formed s" and l: "is_list s this as"
    and s': "nodes s' = (\<lambda>x. if x \<in> set as then None else nodes s x)(this := hv)"
      "sizes s' = (sizes s)(this := zv)" "free_store s' = rev as @ free_store s"
    and tgt: "zv \<noteq> None \<Longrightarrow> is_list s' this []"
  shows "well_formed s'"
proof -
  note es = is_list_chain_head [OF l]
  note ok = wf_heap_ok [OF inv]
  have free: "set (this # as) \<inter> set (free_store s) = {}" using wf_footprint_not_free [OF inv l] .
  have ok1: "heap_ok s'"
    unfolding heap_ok_def
  proof (intro conjI ballI)
    show "distinct (free_store s')" "nullptr \<notin> set (free_store s')"
      using s'(3) ok es free by (auto simp: heap_ok_def)
    fix x assume "x \<in> set (free_store s')"
    then consider "x \<in> set as" | "x \<in> set (free_store s)" using s'(3) by auto
    then have "x \<noteq> this \<and> sizes s x = None \<and> (x \<in> set as \<or> nodes s x = None)"
    proof cases
      case 1 then show ?thesis using es wf_chain_node_no_size [OF inv l] by auto
    next
      case 2 then show ?thesis using free ok by (auto simp: heap_ok_def)
    qed
    then show "nodes s' x = None" "sizes s' x = None" using s'(1,2) by auto
  qed
  show ?thesis
  proof (rule wf_frame_one [OF inv ok1, where this = this and R = "set (this # as)"])
    show "this \<in> set (this # as)" by simp
    show "set (l' # bs) \<inter> set (this # as) = {}" if "l' \<noteq> this" "is_list s l' bs" for l' bs
      using wf_region [OF inv l that] .
    show "sizes s' l' = sizes s l'" if "l' \<noteq> this" for l' using s'(2) that by simp
    show "nodes s' x = nodes s x" if "x \<notin> set (this # as)" "nodes s x \<noteq> None" for x
      using s'(1) that by auto
    show "\<exists>as'. is_list s' this as' \<and> set as' \<subseteq> set (this # as) \<union> {x. nodes s x = None}"
      if "sizes s' this \<noteq> None"
      using tgt that s'(2) by (intro exI [of _ "[]"]) simp
  qed
qed

lemma Clear_wf:
  assumes "well_formed s" "sizes s this \<noteq> None"
  shows "Clear this s = (r, s') \<Longrightarrow> well_formed s'" and "Clear_p0 this s = (r, s') \<Longrightarrow> well_formed s'"
proof -
  from wf_list [OF assms] obtain as where l: "is_list s this as" by blast
  from Clear_list [OF l] obtain s1 h where s1: "Clear this s = (Inr (), s1)" "Clear_p0 this s = (Inr (), s1)"
    "is_list s1 this []"
    "nodes s1 = (\<lambda>x. if x \<in> set as then None else nodes s x)(this \<mapsto> h\<lparr>next_node := nullptr\<rparr>)"
    "sizes s1 = (sizes s)(this \<mapsto> 0)" "free_store s1 = rev as @ free_store s"
    by blast
  have "well_formed s1"
    by (rule Clear_wf_aux [OF assms(1) l s1(4,5,6)]) (simp_all add: s1(3))
  then show "Clear this s = (r, s') \<Longrightarrow> well_formed s'" and "Clear_p0 this s = (r, s') \<Longrightarrow> well_formed s'"
    using s1 by simp_all
qed

lemma dtor_wf:
  assumes "well_formed s" "sizes s this \<noteq> None"
  shows "SingleLinkedList_dtor this s = (r, s') \<Longrightarrow> well_formed s'"
    and "SingleLinkedList_dtor_p0 this s = (r, s') \<Longrightarrow> well_formed s'"
proof -
  from wf_list [OF assms] obtain as where l: "is_list s this as" by blast
  from Clear_list [OF l] obtain s1 h where s1: "Clear this s = (Inr (), s1)" "Clear_p0 this s = (Inr (), s1)"
    "nodes s1 = (\<lambda>x. if x \<in> set as then None else nodes s x)(this \<mapsto> h\<lparr>next_node := nullptr\<rparr>)"
    "sizes s1 = (sizes s)(this \<mapsto> 0)" "free_store s1 = rev as @ free_store s"
    by blast
  let ?s2 = "release_object this s1"
  have "well_formed ?s2"
    by (rule Clear_wf_aux [OF assms(1) l, where hv = None and zv = None])
      (simp_all add: release_object_def s1)
  then show "SingleLinkedList_dtor this s = (r, s') \<Longrightarrow> well_formed s'"
    and "SingleLinkedList_dtor_p0 this s = (r, s') \<Longrightarrow> well_formed s'"
    using s1 by (auto simp: SingleLinkedList_dtor_def SingleLinkedList_dtor_p0_def)
qed

paragraph \<open>Swap\<close>

lemma swap_p0_wf:
  assumes inv: "well_formed s" and la: "sizes s A \<noteq> None" and lb: "sizes s B \<noteq> None"
    and run: "swap_p0 A B s = (r, s')"
  shows "well_formed s' \<and> dom (sizes s') = dom (sizes s)"
proof -
  from wf_list [OF inv la] obtain as where a: "is_list s A as" by blast
  from wf_list [OF inv lb] obtain bs where b: "is_list s B bs" by blast
  show ?thesis
  proof (cases "A = B")
    case True
    with swap_p0_self [OF a] run inv show ?thesis by simp
  next
    case False
    have fp: "set (A # as) \<inter> set (B # bs) = {}" using wf_footprints_disjoint [OF inv a b False] .
    then have ab: "A \<notin> set bs" "B \<notin> set as" "set as \<inter> set bs = {}" by auto
    from swap_p0_lists [OF a b False ab(1,2)]
    obtain s1 ha hb n m where s1: "swap_p0 A B s = (Inr (), s1)" "is_list s1 A bs" "is_list s1 B as"
      "nodes s A = Some ha" "nodes s B = Some hb" "sizes s A = Some n" "sizes s B = Some m"
      "nodes s1 = (nodes s)(A \<mapsto> ha\<lparr>next_node := next_node hb\<rparr>, B \<mapsto> hb\<lparr>next_node := next_node ha\<rparr>)"
      "sizes s1 = (sizes s)(A \<mapsto> m, B \<mapsto> n)" "free_store s1 = free_store s"
      by blast
    with run have eq: "s' = s1" by simp
    note ok = wf_heap_ok [OF inv]
    have ok1: "heap_ok s1"
      using ok s1 unfolding heap_ok_def by auto
    have "well_formed s1"
    proof (rule wf_frame [OF inv ok1, where L = "{A, B}" and N = "set as \<union> set bs"])
      show "sizes s1 l = sizes s l" if "l \<notin> {A, B}" for l using that s1(9) by simp
      show "nodes s1 x = nodes s x" if "l \<notin> {A, B}" "is_list s l cs" "x \<in> set (l # cs)" for l cs x
      proof -
        have "set (l # cs) \<inter> set (A # as) = {}" "set (l # cs) \<inter> set (B # bs) = {}"
          using wf_footprints_disjoint [OF inv that(2)] a b that(1) by auto
        with that(3) have "x \<noteq> A" "x \<noteq> B" by auto
        then show ?thesis using s1(8) by simp
      qed
      show "\<exists>cs. is_list s1 l cs \<and> set cs \<subseteq> set as \<union> set bs" if "l \<in> {A, B}" for l
        using that s1(2,3) by auto
      show "set (l # cs) \<inter> (set as \<union> set bs) = {}" if "l \<notin> {A, B}" "is_list s l cs" for l cs
        using wf_footprints_disjoint [OF inv that(2) a] wf_footprints_disjoint [OF inv that(2) b] that(1)
        by auto
      show "l' \<notin> set cs" if "l \<in> {A, B}" "l' \<in> {A, B}" "is_list s1 l cs" for l l' cs
      proof -
        from that(1,3) s1(2,3) have "cs = as \<or> cs = bs" using is_list_unique by blast
        moreover have "A \<notin> set as" "B \<notin> set bs" using a b by (auto elim: is_listD)
        ultimately show ?thesis using that(2) ab by auto
      qed
      show "l' \<notin> set cs" if "l \<notin> {A, B}" "l' \<in> {A, B}" "is_list s l cs" for l l' cs
        using wf_footprints_disjoint [OF inv that(3) a] wf_footprints_disjoint [OF inv that(3) b] that(1,2)
        by auto
      show "set cs \<inter> set cs' = {}"
        if "l \<in> {A, B}" "l' \<in> {A, B}" "l \<noteq> l'" "is_list s1 l cs" "is_list s1 l' cs'" for l l' cs cs'
      proof -
        from that s1(2,3) have "(cs = as \<and> cs' = bs) \<or> (cs = bs \<and> cs' = as)"
          using is_list_unique by blast
        with ab show ?thesis by auto
      qed
    qed
    moreover have "dom (sizes s1) = dom (sizes s)" using s1(6,7,9) by auto
    ultimately show ?thesis using eq by simp
  qed
qed

paragraph \<open>Construction\<close>

lemma unused_not_in_list:
  assumes "unused s this" "is_list s l bs"
  shows "this \<notin> set (l # bs)"
  using is_list_live [OF assms(2), of this] assms(1) by (auto simp: unused_def)

lemma default_ctor_wf:
  assumes inv: "well_formed s" and u: "unused s this" and run: "SingleLinkedList_default T this s = (r, s')"
  shows "well_formed s'"
proof -
  from run have s': "s' = init_members T this 0 s" by (simp add: SingleLinkedList_default_def)
  note ok = wf_heap_ok [OF inv]
  have ok1: "heap_ok s'"
    using ok u unfolding heap_ok_def s' by (auto simp: init_members_def unused_def)
  show ?thesis
  proof (rule wf_frame_one [OF inv ok1, where this = this and R = "{this}"])
    show "this \<in> {this}" by simp
    show "set (l' # bs) \<inter> {this} = {}" if "l' \<noteq> this" "is_list s l' bs" for l' bs
      using unused_not_in_list [OF u that(2)] by simp
    show "sizes s' l' = sizes s l'" if "l' \<noteq> this" for l' using that by (simp add: s' init_members_def)
    show "nodes s' x = nodes s x" if "x \<notin> {this}" for x using that by (simp add: s' init_members_def)
    have "is_list s' this []"
      using u by (simp add: is_list_def load_def s' init_members_def unused_def)
    then show "\<exists>as'. is_list s' this as' \<and> set as' \<subseteq> {this} \<union> {x. nodes s x = None}"
      by (intro exI [of _ "[]"]) simp
  qed
qed

text \<open>
  However the loop of \<^verbatim>\<open>Construct\<close> ends, it has taken a prefix of the free store, written
  to \<open>node\<close> and to the nodes it made, and either returned or thrown.
\<close>

lemma Construct_loop_outcome:
  assumes "free_store s = fs" "distinct fs" "nullptr \<notin> set fs" "node \<notin> set fs"
    "load s node = Inr nd" "Construct_loop T node vs s = (r, s')"
  shows "\<exists>k. k \<le> length fs \<and> free_store s' = drop k fs \<and> sizes s' = sizes s \<and>
           (\<forall>x. x \<noteq> node \<longrightarrow> x \<notin> set (take k fs) \<longrightarrow> nodes s' x = nodes s x) \<and>
           (case r of Inr u \<Rightarrow> length vs \<le> length fs \<and> (\<forall>v \<in> set vs. \<not> copy_throws T v)
                    | Inl e \<Rightarrow> e = BadAlloc \<or> e = CopyThrew)"
  using assms
proof (induction vs arbitrary: node s fs nd)
  case Nil
  then show ?case by (intro exI [of _ 0]) auto
next
  case (Cons v vs)
  show ?case
  proof (cases "fs = [] \<or> copy_throws T v")
    case True
    with Cons.prems have "r = Inl BadAlloc \<or> r = Inl CopyThrew" "s' = s"
      by (auto simp: new_Node_def split: list.splits)
    with Cons.prems(1) show ?thesis by (intro exI [of _ 0]) auto
  next
    case False
    then obtain a fs' where fs: "fs = a # fs'" and nt: "\<not> copy_throws T v" by (cases fs) auto
    from Cons.prems fs have a: "a \<noteq> nullptr" "a \<noteq> node" "a \<notin> set fs'" "distinct fs'"
      "nullptr \<notin> set fs'" "node \<notin> set fs'" "node \<noteq> nullptr" "nodes s node = Some nd"
      by (auto simp: load_Inr_iff)
    define s1 where "s1 = s\<lparr>nodes := (nodes s)(a \<mapsto> \<lparr>val = v, next_node = nullptr\<rparr>), free_store := fs'\<rparr>"
    define s2 where "s2 = s1\<lparr>nodes := (nodes s1)(node \<mapsto> nd\<lparr>next_node := a\<rparr>)\<rparr>"
    have n1: "new_Node T v nullptr s = (Inr a, s1)"
      using Cons.prems(1) fs nt by (simp add: new_Node_def s1_def)
    have n2: "set_next_node node a s1 = Inr s2"
      using a by (simp add: set_next_node_def load_def s1_def s2_def)
    have n3: "load s2 node = Inr (nd\<lparr>next_node := a\<rparr>)"
      using a by (simp add: load_def s2_def)
    have step: "Construct_loop T a vs s2 = (r, s')"
      using n1 n2 n3 Cons.prems(6) by simp
    have la: "load s2 a = Inr \<lparr>val = v, next_node = nullptr\<rparr>"
      using a by (simp add: load_def s2_def s1_def)
    have f2: "free_store s2 = fs'" by (simp add: s2_def s1_def)
    from Cons.IH [OF f2 a(4) a(5) a(3) la step]
    obtain k where k: "k \<le> length fs'" "free_store s' = drop k fs'" "sizes s' = sizes s2"
      "\<forall>x. x \<noteq> a \<longrightarrow> x \<notin> set (take k fs') \<longrightarrow> nodes s' x = nodes s2 x"
      "case r of Inr u \<Rightarrow> length vs \<le> length fs' \<and> (\<forall>v \<in> set vs. \<not> copy_throws T v)
               | Inl e \<Rightarrow> e = BadAlloc \<or> e = CopyThrew"
      by blast
    show ?thesis
      apply (rule exI [of _ "Suc k"])
      using k fs nt by (auto simp: s2_def s1_def split: sum.splits)
  qed
qed

lemma init_loop_p0_Construct_loop:
  "\<exists>r0. Construct_loop T node vs s = (r0, snd (init_loop_p0 T node vs s)) \<and>
        completes r0 = completes (fst (init_loop_p0 T node vs s)) \<and>
        isl r0 = isl (fst (init_loop_p0 T node vs s))"
proof (induction vs arbitrary: node s)
  case Nil
  then show ?case by simp
next
  case (Cons v vs)
  show ?case
  proof (cases "copy_throws T v")
    case True
    then show ?thesis by (auto simp: new_Node_def split: list.splits)
  next
    case False
    then show ?thesis using Cons.IH
      by (auto split: prod.splits sum.splits)
  qed
qed

lemma init_ctor_wf:
  assumes inv: "well_formed s" and u: "unused s this" and run: "SingleLinkedList_init T this vs s = (r, s')"
    and c: "completes r"
  shows "well_formed s'"
proof -
  let ?s0 = "init_members T this (of_nat (length vs)) s"
  let ?fs = "free_store s"
  note ok = wf_heap_ok [OF inv]
  from ok u have f: "distinct ?fs" "nullptr \<notin> set ?fs" "this \<notin> set ?fs" "this \<noteq> nullptr"
    "\<forall>x \<in> set ?fs. nodes s x = None \<and> sizes s x = None"
    by (auto simp: heap_ok_def unused_def)
  obtain r1 s1 where r1: "Construct_loop T this vs ?s0 = (r1, s1)" by (cases "Construct_loop T this vs ?s0")
  have l0: "load ?s0 this = Inr \<lparr>val = default_value T, next_node = nullptr\<rparr>"
    using f by (simp add: load_def init_members_def)
  have f0: "free_store ?s0 = ?fs" by (simp add: init_members_def)
  from Construct_loop_outcome [OF f0 f(1,2,3) l0 r1]
  obtain k where k: "k \<le> length ?fs" "free_store s1 = drop k ?fs" "sizes s1 = sizes ?s0"
    "\<forall>x. x \<noteq> this \<longrightarrow> x \<notin> set (take k ?fs) \<longrightarrow> nodes s1 x = nodes ?s0 x"
    "case r1 of Inr u \<Rightarrow> length vs \<le> length ?fs \<and> (\<forall>v \<in> set vs. \<not> copy_throws T v)
              | Inl e \<Rightarrow> e = BadAlloc \<or> e = CopyThrew"
    by blast
  have s': "s' = (case r1 of Inl e \<Rightarrow> release_object this s1 | Inr u \<Rightarrow> s1)"
    using run r1 by (auto simp: SingleLinkedList_init_def Construct_def split: sum.splits)
  have fr: "free_store s' = drop k ?fs"
    and sz: "\<And>l. l \<noteq> this \<Longrightarrow> sizes s' l = sizes s l"
    and nd: "\<And>x. x \<noteq> this \<Longrightarrow> x \<notin> set (take k ?fs) \<Longrightarrow> nodes s' x = nodes s x"
    using k by (auto simp: s' release_object_def init_members_def split: sum.splits)
  have tk: "set (take k ?fs) \<inter> set (drop k ?fs) = {}"
    using f(1) by (metis append_take_drop_id distinct_append)
  have ok1: "heap_ok s'"
    unfolding heap_ok_def
  proof (intro conjI ballI)
    show "distinct (free_store s')" "nullptr \<notin> set (free_store s')"
      using fr f by (auto dest: in_set_dropD)
    fix x assume "x \<in> set (free_store s')"
    then have x: "x \<in> set (drop k ?fs)" using fr by simp
    then have "x \<in> set ?fs" "x \<notin> set (take k ?fs)" using tk by (auto dest: in_set_dropD)
    then show "nodes s' x = None" "sizes s' x = None" using nd [of x] sz [of x] f by auto
  qed
  show ?thesis
  proof (rule wf_frame_one [OF inv ok1, where this = this and R = "{this}"])
    show "this \<in> {this}" by simp
    show "set (l' # bs) \<inter> {this} = {}" if "l' \<noteq> this" "is_list s l' bs" for l' bs
      using unused_not_in_list [OF u that(2)] by simp
    show "sizes s' l' = sizes s l'" if "l' \<noteq> this" for l' using sz that by simp
    show "nodes s' x = nodes s x" if "x \<notin> {this}" "nodes s x \<noteq> None" for x
    proof -
      have "x \<notin> set ?fs" using that f by auto
      then have "x \<notin> set (take k ?fs)" by (auto dest: in_set_takeD)
      with that nd show ?thesis by simp
    qed
    show "\<exists>as'. is_list s' this as' \<and> set as' \<subseteq> {this} \<union> {x. nodes s x = None}"
      if live: "sizes s' this \<noteq> None"
    proof (cases r1)
      case (Inl e)
      with s' have "sizes s' this = None" by (simp add: release_object_def)
      with live show ?thesis by simp
    next
      case (Inr u')
      with k(5) have h: "length vs \<le> length ?fs" "\<forall>v \<in> set vs. \<not> copy_throws T v" by simp_all
      from SingleLinkedList_init_builds [OF f(1,2,3,4) h]
      obtain s2 where s2: "SingleLinkedList_init T this vs s = (Inr (), s2)"
        "is_list s2 this (take (length vs) ?fs)" by blast
      with run have "s' = s2" by simp
      with s2(2) f(5) show ?thesis
        by (intro exI [of _ "take (length vs) ?fs"]) (auto dest: in_set_takeD)
    qed
  qed
qed

lemma init_ctor_p0_wf:
  assumes inv: "well_formed s" and u: "unused s this" and run: "SingleLinkedList_init_p0 T this vs s = (r, s')"
    and c: "completes r"
  shows "well_formed s'"
proof -
  let ?s0 = "init_members T this (of_nat (length vs)) s"
  obtain r1 s1 where r1: "init_loop_p0 T this vs ?s0 = (r1, s1)" by (cases "init_loop_p0 T this vs ?s0")
  from init_loop_p0_Construct_loop [of T this vs ?s0] r1
  obtain r0 where r0: "Construct_loop T this vs ?s0 = (r0, s1)" "completes r0 = completes r1"
    "isl r0 = isl r1" by auto
  have "\<exists>r'. SingleLinkedList_init T this vs s = (r', s') \<and> completes r'"
    using run r0 r1 c
    by (cases r0; cases r1)
      (auto simp: SingleLinkedList_init_def SingleLinkedList_init_p0_def Construct_def)
  then show ?thesis using init_ctor_wf [OF inv u] by blast
qed

paragraph \<open>Copy construction\<close>

lemma Construct_from_outcome:
  assumes "free_store s = fs" "distinct fs" "nullptr \<notin> set fs" "node \<notin> set fs"
    "load s node = Inr nd" "next_node nd = nullptr"
    "chain s p bs" "node \<notin> set bs" "set fs \<inter> set bs = {}"
    "Construct_from T node \<lparr>nodeptr = p\<rparr> end_it s = (r, s')"
  shows "\<exists>k. k \<le> length fs \<and> free_store s' = drop k fs \<and> sizes s' = sizes s \<and>
           (\<forall>x. x \<noteq> node \<longrightarrow> x \<notin> set (take k fs) \<longrightarrow> nodes s' x = nodes s x) \<and>
           (case r of
              Inr u \<Rightarrow> k = length bs \<and>
                (\<exists>nd'. nodes s' node = Some nd' \<and> val nd' = val nd \<and>
                       chain s' (next_node nd') (take k fs)) \<and>
                contents s' (take k fs) = contents s bs
            | Inl e \<Rightarrow> e = BadAlloc \<or> e = CopyThrew)"
  using assms
proof (induction bs arbitrary: node s fs nd p)
  case Nil
  then have "Construct_from T node \<lparr>nodeptr = p\<rparr> end_it s = (Inr (), s)"
    by (subst Construct_from.simps) (simp add: iterator_eq_def end_it_def)
  with Nil show ?case
    by (intro exI [of _ 0]) (auto simp: load_Inr_iff contents_def)
next
  case (Cons b bs)
  from Cons.prems(7) obtain bn where b: "p = b" "b \<noteq> nullptr" "nodes s b = Some bn"
    "chain s (next_node bn) bs" by (auto simp: chain_Cons_iff)
  have lb: "load s b = Inr bn" using b by (simp add: load_Inr_iff)
  let ?v = "val bn"
  have unfold: "Construct_from T node \<lparr>nodeptr = b\<rparr> end_it s =
      (case new_Node T ?v nullptr s of
         (Inl e, s1) \<Rightarrow> (Inl e, s1)
       | (Inr new_node, s1) \<Rightarrow>
           (case set_next_node node new_node s1 of
              Inl e \<Rightarrow> (Inl e, s1)
            | Inr s2 \<Rightarrow>
                (case load s2 node of
                   Inl e \<Rightarrow> (Inl e, s2)
                 | Inr nd \<Rightarrow>
                     (case operator_incr s2 \<lparr>nodeptr = b\<rparr> of
                        Inl e \<Rightarrow> (Inl e, s2)
                      | Inr iterator' \<Rightarrow> Construct_from T (next_node nd) iterator' end_it s2))))"
    using b lb by (subst Construct_from.simps) (simp add: iterator_eq_def end_it_def iter_ops)
  show ?case
  proof (cases "fs = [] \<or> copy_throws T ?v")
    case True
    with Cons.prems(1,10) unfold b(1) have "r = Inl BadAlloc \<or> r = Inl CopyThrew" "s' = s"
      by (auto simp: new_Node_def split: list.splits)
    with Cons.prems(1) show ?thesis by (intro exI [of _ 0]) auto
  next
    case False
    then obtain a fs' where fs: "fs = a # fs'" and nt: "\<not> copy_throws T ?v" by (cases fs) auto
    from Cons.prems fs have a: "a \<noteq> nullptr" "a \<noteq> node" "a \<notin> set fs'" "distinct fs'"
      "nullptr \<notin> set fs'" "node \<notin> set fs'" "node \<noteq> nullptr" "nodes s node = Some nd"
      "a \<noteq> b" "a \<notin> set bs" "node \<noteq> b" "node \<notin> set bs" "set fs' \<inter> set bs = {}"
      by (auto simp: load_Inr_iff)
    define s1 where "s1 = s\<lparr>nodes := (nodes s)(a \<mapsto> \<lparr>val = ?v, next_node = nullptr\<rparr>), free_store := fs'\<rparr>"
    define s2 where "s2 = s1\<lparr>nodes := (nodes s1)(node \<mapsto> nd\<lparr>next_node := a\<rparr>)\<rparr>"
    have n1: "new_Node T ?v nullptr s = (Inr a, s1)"
      using Cons.prems(1) fs nt by (simp add: new_Node_def s1_def)
    have n2: "set_next_node node a s1 = Inr s2"
      using a by (simp add: set_next_node_def load_def s1_def s2_def)
    have n3: "load s2 node = Inr (nd\<lparr>next_node := a\<rparr>)"
      using a by (simp add: load_def s2_def)
    have n4: "load s2 b = Inr bn" using a b by (simp add: load_def s2_def s1_def)
    have step: "Construct_from T a \<lparr>nodeptr = next_node bn\<rparr> end_it s2 = (r, s')"
      using unfold n1 n2 n3 iter_ops(1) [OF n4] Cons.prems(10) b(1) by simp
    have la: "load s2 a = Inr \<lparr>val = ?v, next_node = nullptr\<rparr>"
      using a by (simp add: load_def s2_def s1_def)
    have f2: "free_store s2 = fs'" by (simp add: s2_def s1_def)
    have c2: "chain s2 (next_node bn) bs"
      using a by (intro chain_frame [OF b(4)]) (auto simp: s2_def s1_def)
    have "\<exists>k. k \<le> length fs' \<and> free_store s' = drop k fs' \<and> sizes s' = sizes s2 \<and>
      (\<forall>x. x \<noteq> a \<longrightarrow> x \<notin> set (take k fs') \<longrightarrow> nodes s' x = nodes s2 x) \<and>
      (case r of
         Inr u \<Rightarrow> k = length bs \<and>
           (\<exists>nd'. nodes s' a = Some nd' \<and> val nd' = ?v \<and> chain s' (next_node nd') (take k fs')) \<and>
           contents s' (take k fs') = contents s2 bs
       | Inl e \<Rightarrow> e = BadAlloc \<or> e = CopyThrew)"
      using Cons.IH [OF f2 a(4) a(5) a(3) la _ c2 a(10) a(13) step] by (cases r; simp)
    then obtain k where kk: "k \<le> length fs' \<and> free_store s' = drop k fs' \<and> sizes s' = sizes s2 \<and>
      (\<forall>x. x \<noteq> a \<longrightarrow> x \<notin> set (take k fs') \<longrightarrow> nodes s' x = nodes s2 x) \<and>
      (case r of
         Inr u \<Rightarrow> k = length bs \<and>
           (\<exists>nd'. nodes s' a = Some nd' \<and> val nd' = ?v \<and> chain s' (next_node nd') (take k fs')) \<and>
           contents s' (take k fs') = contents s2 bs
       | Inl e \<Rightarrow> e = BadAlloc \<or> e = CopyThrew)" ..
    then have k: "k \<le> length fs'" "free_store s' = drop k fs'" "sizes s' = sizes s2"
      "\<forall>x. x \<noteq> a \<longrightarrow> x \<notin> set (take k fs') \<longrightarrow> nodes s' x = nodes s2 x"
      "case r of
         Inr u \<Rightarrow> k = length bs \<and>
           (\<exists>nd'. nodes s' a = Some nd' \<and> val nd' = ?v \<and> chain s' (next_node nd') (take k fs')) \<and>
           contents s' (take k fs') = contents s2 bs
       | Inl e \<Rightarrow> e = BadAlloc \<or> e = CopyThrew"
      by blast+
    have notin: "node \<notin> set (take k fs')" "b \<notin> set (take k fs')"
      using a(6) Cons.prems(9) fs by (auto dest: in_set_takeD)
    have nn: "nodes s' node = Some (nd\<lparr>next_node := a\<rparr>)"
      using k(4) a notin by (simp add: s2_def)
    have frame: "\<forall>x. x \<noteq> node \<longrightarrow> x \<notin> set (take (Suc k) fs) \<longrightarrow> nodes s' x = nodes s x"
      using k(4) fs by (auto simp: s2_def s1_def)
    have c2s: "contents s2 bs = contents s bs"
      using a by (auto simp: contents_def s2_def s1_def)
    have succ: "Suc k = length (b # bs) \<and>
          (\<exists>nd'. nodes s' node = Some nd' \<and> val nd' = val nd \<and>
                 chain s' (next_node nd') (take (Suc k) fs)) \<and>
          contents s' (take (Suc k) fs) = contents s (b # bs)" if "r = Inr u" for u
    proof -
      from that k(5) obtain nd' where s: "k = length bs" "nodes s' a = Some nd'" "val nd' = ?v"
        "chain s' (next_node nd') (take k fs')" "contents s' (take k fs') = contents s2 bs"
        by auto
      have "chain s' a (a # take k fs')" using s a by (simp add: chain_Cons_iff)
      moreover have "contents s' (a # take k fs') = ?v # contents s bs"
        using s c2s by (simp add: contents_def)
      ultimately show ?thesis
        using s(1) nn fs b(3) by (simp add: contents_def)
    qed
    show ?thesis
      apply (rule exI [of _ "Suc k"])
      using k(1,2,3) frame succ k(5) fs
      by (cases r) (auto simp: s2_def s1_def)
  qed
qed

lemma copy_loop_p0_outcome:
  assumes "free_store s = fs" "distinct fs" "nullptr \<notin> set fs" "node \<notin> set fs"
    "load s node = Inr nd" "next_node nd = nullptr"
    "chain s p bs" "node \<notin> set bs" "set fs \<inter> set bs = {}"
    "copy_loop_p0 T node \<lparr>nodeptr = p\<rparr> end_it s = (r, s')"
  shows "\<exists>k. k \<le> length fs \<and> free_store s' = drop k fs \<and> sizes s' = sizes s \<and>
           (\<forall>x. x \<noteq> node \<longrightarrow> x \<notin> set (take k fs) \<longrightarrow> nodes s' x = nodes s x) \<and>
           (case r of
              Inr u \<Rightarrow> k = length bs \<and>
                (\<exists>nd'. nodes s' node = Some nd' \<and> val nd' = val nd \<and>
                       chain s' (next_node nd') (take k fs)) \<and>
                contents s' (take k fs) = contents s bs
            | Inl e \<Rightarrow> e = BadAlloc \<or> e = CopyThrew)"
  using assms
proof (induction bs arbitrary: node s fs nd p)
  case Nil
  then have "copy_loop_p0 T node \<lparr>nodeptr = p\<rparr> end_it s = (Inr (), s)"
    by (subst copy_loop_p0.simps) (simp add: iterator_eq_def end_it_def)
  with Nil show ?case
    by (intro exI [of _ 0]) (auto simp: load_Inr_iff contents_def)
next
  case (Cons b bs)
  from Cons.prems(7) obtain bn where b: "p = b" "b \<noteq> nullptr" "nodes s b = Some bn"
    "chain s (next_node bn) bs" by (auto simp: chain_Cons_iff)
  have lb: "load s b = Inr bn" using b by (simp add: load_Inr_iff)
  let ?v = "val bn"
  have unfold: "copy_loop_p0 T node \<lparr>nodeptr = b\<rparr> end_it s =
      (if copy_throws T ?v then (Inl CopyThrew, s)
       else case new_Node T ?v nullptr s of
         (Inl e, s1) \<Rightarrow> (Inl e, s1)
       | (Inr new_node, s1) \<Rightarrow>
           (case set_next_node node new_node s1 of
              Inl e \<Rightarrow> (Inl e, s1)
            | Inr s2 \<Rightarrow>
                (case load s2 node of
                   Inl e \<Rightarrow> (Inl e, s2)
                 | Inr nd \<Rightarrow>
                     (case operator_incr_p0 s2 \<lparr>nodeptr = b\<rparr> of
                        Inl e \<Rightarrow> (Inl e, s2)
                      | Inr iterator' \<Rightarrow> copy_loop_p0 T (next_node nd) iterator' end_it s2))))"
    using b lb by (subst copy_loop_p0.simps) (simp add: iterator_eq_def end_it_def iter_ops)
  show ?case
  proof (cases "fs = [] \<or> copy_throws T ?v")
    case True
    with Cons.prems(1,10) unfold b(1) have "r = Inl BadAlloc \<or> r = Inl CopyThrew" "s' = s"
      by (auto simp: new_Node_def split: list.splits if_splits)
    with Cons.prems(1) show ?thesis by (intro exI [of _ 0]) auto
  next
    case False
    then obtain a fs' where fs: "fs = a # fs'" and nt: "\<not> copy_throws T ?v" by (cases fs) auto
    from Cons.prems fs have a: "a \<noteq> nullptr" "a \<noteq> node" "a \<notin> set fs'" "distinct fs'"
      "nullptr \<notin> set fs'" "node \<notin> set fs'" "node \<noteq> nullptr" "nodes s node = Some nd"
      "a \<noteq> b" "a \<notin> set bs" "node \<noteq> b" "node \<notin> set bs" "set fs' \<inter> set bs = {}"
      by (auto simp: load_Inr_iff)
    define s1 where "s1 = s\<lparr>nodes := (nodes s)(a \<mapsto> \<lparr>val = ?v, next_node = nullptr\<rparr>), free_store := fs'\<rparr>"
    define s2 where "s2 = s1\<lparr>nodes := (nodes s1)(node \<mapsto> nd\<lparr>next_node := a\<rparr>)\<rparr>"
    have n1: "new_Node T ?v nullptr s = (Inr a, s1)"
      using Cons.prems(1) fs nt by (simp add: new_Node_def s1_def)
    have n2: "set_next_node node a s1 = Inr s2"
      using a by (simp add: set_next_node_def load_def s1_def s2_def)
    have n3: "load s2 node = Inr (nd\<lparr>next_node := a\<rparr>)"
      using a by (simp add: load_def s2_def)
    have n4: "load s2 b = Inr bn" using a b by (simp add: load_def s2_def s1_def)
    have step: "copy_loop_p0 T a \<lparr>nodeptr = next_node bn\<rparr> end_it s2 = (r, s')"
      using unfold n1 n2 n3 iter_ops(3) [OF n4] Cons.prems(10) b(1) nt by simp
    have la: "load s2 a = Inr \<lparr>val = ?v, next_node = nullptr\<rparr>"
      using a by (simp add: load_def s2_def s1_def)
    have f2: "free_store s2 = fs'" by (simp add: s2_def s1_def)
    have c2: "chain s2 (next_node bn) bs"
      using a by (intro chain_frame [OF b(4)]) (auto simp: s2_def s1_def)
    have "\<exists>k. k \<le> length fs' \<and> free_store s' = drop k fs' \<and> sizes s' = sizes s2 \<and>
      (\<forall>x. x \<noteq> a \<longrightarrow> x \<notin> set (take k fs') \<longrightarrow> nodes s' x = nodes s2 x) \<and>
      (case r of
         Inr u \<Rightarrow> k = length bs \<and>
           (\<exists>nd'. nodes s' a = Some nd' \<and> val nd' = ?v \<and> chain s' (next_node nd') (take k fs')) \<and>
           contents s' (take k fs') = contents s2 bs
       | Inl e \<Rightarrow> e = BadAlloc \<or> e = CopyThrew)"
      using Cons.IH [OF f2 a(4) a(5) a(3) la _ c2 a(10) a(13) step] by (cases r; simp)
    then obtain k where kk: "k \<le> length fs' \<and> free_store s' = drop k fs' \<and> sizes s' = sizes s2 \<and>
      (\<forall>x. x \<noteq> a \<longrightarrow> x \<notin> set (take k fs') \<longrightarrow> nodes s' x = nodes s2 x) \<and>
      (case r of
         Inr u \<Rightarrow> k = length bs \<and>
           (\<exists>nd'. nodes s' a = Some nd' \<and> val nd' = ?v \<and> chain s' (next_node nd') (take k fs')) \<and>
           contents s' (take k fs') = contents s2 bs
       | Inl e \<Rightarrow> e = BadAlloc \<or> e = CopyThrew)" ..
    then have k: "k \<le> length fs'" "free_store s' = drop k fs'" "sizes s' = sizes s2"
      "\<forall>x. x \<noteq> a \<longrightarrow> x \<notin> set (take k fs') \<longrightarrow> nodes s' x = nodes s2 x"
      "case r of
         Inr u \<Rightarrow> k = length bs \<and>
           (\<exists>nd'. nodes s' a = Some nd' \<and> val nd' = ?v \<and> chain s' (next_node nd') (take k fs')) \<and>
           contents s' (take k fs') = contents s2 bs
       | Inl e \<Rightarrow> e = BadAlloc \<or> e = CopyThrew"
      by blast+
    have notin: "node \<notin> set (take k fs')" "b \<notin> set (take k fs')"
      using a(6) Cons.prems(9) fs by (auto dest: in_set_takeD)
    have nn: "nodes s' node = Some (nd\<lparr>next_node := a\<rparr>)"
      using k(4) a notin by (simp add: s2_def)
    have frame: "\<forall>x. x \<noteq> node \<longrightarrow> x \<notin> set (take (Suc k) fs) \<longrightarrow> nodes s' x = nodes s x"
      using k(4) fs by (auto simp: s2_def s1_def)
    have c2s: "contents s2 bs = contents s bs"
      using a by (auto simp: contents_def s2_def s1_def)
    have succ: "Suc k = length (b # bs) \<and>
          (\<exists>nd'. nodes s' node = Some nd' \<and> val nd' = val nd \<and>
                 chain s' (next_node nd') (take (Suc k) fs)) \<and>
          contents s' (take (Suc k) fs) = contents s (b # bs)" if "r = Inr u" for u
    proof -
      from that k(5) obtain nd' where s: "k = length bs" "nodes s' a = Some nd'" "val nd' = ?v"
        "chain s' (next_node nd') (take k fs')" "contents s' (take k fs') = contents s2 bs"
        by auto
      have "chain s' a (a # take k fs')" using s a by (simp add: chain_Cons_iff)
      moreover have "contents s' (a # take k fs') = ?v # contents s bs"
        using s c2s by (simp add: contents_def)
      ultimately show ?thesis
        using s(1) nn fs b(3) by (simp add: contents_def)
    qed
    show ?thesis
      apply (rule exI [of _ "Suc k"])
      using k(1,2,3) frame succ k(5) fs
      by (cases r) (auto simp: s2_def s1_def)
  qed
qed


lemma copy_ctor_wf_aux:
  assumes inv: "well_formed s" and u: "unused s this" and o: "is_list s other bs"
    and out: "\<exists>k. k \<le> length (free_store s) \<and> free_store s1 = drop k (free_store s) \<and>
           sizes s1 = (sizes s)(this \<mapsto> n) \<and>
           (\<forall>x. x \<noteq> this \<longrightarrow> x \<notin> set (take k (free_store s)) \<longrightarrow> nodes s1 x = nodes s x) \<and>
           (case r1 of
              Inr u \<Rightarrow> k = length bs \<and>
                (\<exists>nd'. nodes s1 this = Some nd' \<and> chain s1 (next_node nd') (take k (free_store s)))
            | Inl e \<Rightarrow> e = BadAlloc \<or> e = CopyThrew)"
    and n: "unat n = length bs"
    and s': "s' = (case r1 of Inl e \<Rightarrow> release_object this s1 | Inr u \<Rightarrow> s1)"
  shows "well_formed s' \<and> (\<forall>l. l \<noteq> this \<longrightarrow> sizes s' l = sizes s l) \<and> (\<not> isl r1 \<longrightarrow> sizes s' this \<noteq> None)"
proof -
  let ?fs = "free_store s"
  note ok = wf_heap_ok [OF inv]
  from ok u have f: "distinct ?fs" "nullptr \<notin> set ?fs" "this \<notin> set ?fs" "this \<noteq> nullptr"
    "\<forall>x \<in> set ?fs. nodes s x = None \<and> sizes s x = None"
    by (auto simp: heap_ok_def unused_def)
  from out obtain k where kk: "k \<le> length ?fs \<and> free_store s1 = drop k ?fs \<and>
           sizes s1 = (sizes s)(this \<mapsto> n) \<and>
           (\<forall>x. x \<noteq> this \<longrightarrow> x \<notin> set (take k ?fs) \<longrightarrow> nodes s1 x = nodes s x) \<and>
           (case r1 of
              Inr u \<Rightarrow> k = length bs \<and>
                (\<exists>nd'. nodes s1 this = Some nd' \<and> chain s1 (next_node nd') (take k ?fs))
            | Inl e \<Rightarrow> e = BadAlloc \<or> e = CopyThrew)" ..
  then have k: "k \<le> length ?fs" "free_store s1 = drop k ?fs" "sizes s1 = (sizes s)(this \<mapsto> n)"
    "\<forall>x. x \<noteq> this \<longrightarrow> x \<notin> set (take k ?fs) \<longrightarrow> nodes s1 x = nodes s x"
    by blast+
  have fr: "free_store s' = drop k ?fs"
    and sz: "\<And>l. l \<noteq> this \<Longrightarrow> sizes s' l = sizes s l"
    and nd: "\<And>x. x \<noteq> this \<Longrightarrow> x \<notin> set (take k ?fs) \<Longrightarrow> nodes s' x = nodes s x"
    using k by (auto simp: s' release_object_def split: sum.splits)
  have tk: "set (take k ?fs) \<inter> set (drop k ?fs) = {}"
    using f(1) by (metis append_take_drop_id distinct_append)
  have ok1: "heap_ok s'"
    unfolding heap_ok_def
  proof (intro conjI ballI)
    show "distinct (free_store s')" "nullptr \<notin> set (free_store s')"
      using fr f by (auto dest: in_set_dropD)
    fix x assume "x \<in> set (free_store s')"
    then have x: "x \<in> set (drop k ?fs)" using fr by simp
    then have "x \<in> set ?fs" "x \<notin> set (take k ?fs)" using tk by (auto dest: in_set_dropD)
    then show "nodes s' x = None" "sizes s' x = None" using nd [of x] sz [of x] f by auto
  qed
  have live: "sizes s' this \<noteq> None" if "\<not> isl r1"
    using that k(3) by (cases r1) (auto simp: s')
  have "well_formed s'"
  proof (rule wf_frame_one [OF inv ok1, where this = this and R = "{this}"])
    show "this \<in> {this}" by simp
    show "set (l' # cs) \<inter> {this} = {}" if "l' \<noteq> this" "is_list s l' cs" for l' cs
      using unused_not_in_list [OF u that(2)] by simp
    show "sizes s' l' = sizes s l'" if "l' \<noteq> this" for l' using sz that by simp
    show "nodes s' x = nodes s x" if "x \<notin> {this}" "nodes s x \<noteq> None" for x
    proof -
      have "x \<notin> set ?fs" using that f by auto
      then have "x \<notin> set (take k ?fs)" by (auto dest: in_set_takeD)
      with that nd show ?thesis by simp
    qed
    show "\<exists>as'. is_list s' this as' \<and> set as' \<subseteq> {this} \<union> {x. nodes s x = None}"
      if lv: "sizes s' this \<noteq> None"
    proof (cases r1)
      case (Inl e)
      with s' have "sizes s' this = None" by (simp add: release_object_def)
      with lv show ?thesis by simp
    next
      case (Inr u')
      with kk obtain nd' where c: "k = length bs" "nodes s1 this = Some nd'"
        "chain s1 (next_node nd') (take k ?fs)" by auto
      have "this \<notin> set (take k ?fs)" using f(3) by (auto dest: in_set_takeD)
      then have "is_list s' this (take k ?fs)"
        using c k Inr n f(4) by (simp add: is_list_def load_def s')
      with f(5) show ?thesis
        by (intro exI [of _ "take k ?fs"]) (auto dest: in_set_takeD)
    qed
  qed
  with sz live show ?thesis by simp
qed

lemma copy_ctor_wf:
  assumes inv: "well_formed s" and u: "unused s this" and live: "sizes s other \<noteq> None"
    and run: "SingleLinkedList_copy T this other s = (r, s')"
  shows "well_formed s' \<and> (\<forall>l. l \<noteq> this \<longrightarrow> sizes s' l = sizes s l) \<and> (\<not> isl r \<longrightarrow> sizes s' this \<noteq> None)"
proof -
  from wf_list [OF inv live] obtain bs where o: "is_list s other bs" by blast
  from o obtain oh n where oh: "load s other = Inr oh" "chain s (next_node oh) bs"
    "sizes s other = Some n" "unat n = length bs" by (rule is_listD)
  let ?s0 = "init_members T this n s"
  let ?fs = "free_store s"
  note ok = wf_heap_ok [OF inv]
  from ok u have f: "distinct ?fs" "nullptr \<notin> set ?fs" "this \<notin> set ?fs" "this \<noteq> nullptr"
    by (auto simp: heap_ok_def unused_def)
  have ot: "this \<notin> set (other # bs)" using unused_not_in_list [OF u o] .
  have fb: "set ?fs \<inter> set bs = {}" using wf_footprint_not_free [OF inv o] by auto
  have l0: "load ?s0 this = Inr \<lparr>val = default_value T, next_node = nullptr\<rparr>"
    using f by (simp add: load_def init_members_def)
  have f0: "free_store ?s0 = ?fs" by (simp add: init_members_def)
  have c0: "chain ?s0 (next_node oh) bs"
    using ot by (intro chain_frame [OF oh(2)]) (auto simp: init_members_def)
  have b0: "begin_it other ?s0 = Inr \<lparr>nodeptr = next_node oh\<rparr>"
  proof -
    have "load ?s0 other = Inr oh" using oh(1) ot by (auto simp: load_Inr_iff init_members_def)
    then show ?thesis by (simp add: begin_it_def)
  qed
  obtain r1 s1 where r1: "Construct_from T this \<lparr>nodeptr = next_node oh\<rparr> end_it ?s0 = (r1, s1)"
    by (cases "Construct_from T this \<lparr>nodeptr = next_node oh\<rparr> end_it ?s0")
  have s': "s' = (case r1 of Inl e \<Rightarrow> release_object this s1 | Inr u \<Rightarrow> s1)" and rr: "isl r = isl r1"
    using run r1 b0 oh(3) by (auto simp: SingleLinkedList_copy_def GetSize_def split: sum.splits)
  have out: "\<exists>k. k \<le> length ?fs \<and> free_store s1 = drop k ?fs \<and>
           sizes s1 = (sizes s)(this \<mapsto> n) \<and>
           (\<forall>x. x \<noteq> this \<longrightarrow> x \<notin> set (take k ?fs) \<longrightarrow> nodes s1 x = nodes s x) \<and>
           (case r1 of
              Inr u \<Rightarrow> k = length bs \<and>
                (\<exists>nd'. nodes s1 this = Some nd' \<and> chain s1 (next_node nd') (take k ?fs))
            | Inl e \<Rightarrow> e = BadAlloc \<or> e = CopyThrew)"
    using Construct_from_outcome [OF f0 f(1,2,3) l0 _ c0 _ fb r1] ot
    by (cases r1) (auto simp: init_members_def)
  from copy_ctor_wf_aux [OF inv u o out oh(4) s'] rr show ?thesis by simp
qed

lemma copy_ctor_p0_wf:
  assumes inv: "well_formed s" and u: "unused s this" and live: "sizes s other \<noteq> None"
    and run: "SingleLinkedList_copy_p0 T this other s = (r, s')"
  shows "well_formed s' \<and> (\<forall>l. l \<noteq> this \<longrightarrow> sizes s' l = sizes s l) \<and> (\<not> isl r \<longrightarrow> sizes s' this \<noteq> None)"
proof -
  from wf_list [OF inv live] obtain bs where o: "is_list s other bs" by blast
  from o obtain oh n where oh: "load s other = Inr oh" "chain s (next_node oh) bs"
    "sizes s other = Some n" "unat n = length bs" by (rule is_listD)
  let ?s0 = "init_members T this n s"
  let ?fs = "free_store s"
  note ok = wf_heap_ok [OF inv]
  from ok u have f: "distinct ?fs" "nullptr \<notin> set ?fs" "this \<notin> set ?fs" "this \<noteq> nullptr"
    by (auto simp: heap_ok_def unused_def)
  have ot: "this \<notin> set (other # bs)" using unused_not_in_list [OF u o] .
  have fb: "set ?fs \<inter> set bs = {}" using wf_footprint_not_free [OF inv o] by auto
  have l0: "load ?s0 this = Inr \<lparr>val = default_value T, next_node = nullptr\<rparr>"
    using f by (simp add: load_def init_members_def)
  have f0: "free_store ?s0 = ?fs" by (simp add: init_members_def)
  have c0: "chain ?s0 (next_node oh) bs"
    using ot by (intro chain_frame [OF oh(2)]) (auto simp: init_members_def)
  have b0: "begin_it other ?s0 = Inr \<lparr>nodeptr = next_node oh\<rparr>"
  proof -
    have "load ?s0 other = Inr oh" using oh(1) ot by (auto simp: load_Inr_iff init_members_def)
    then show ?thesis by (simp add: begin_it_def)
  qed
  obtain r1 s1 where r1: "copy_loop_p0 T this \<lparr>nodeptr = next_node oh\<rparr> end_it ?s0 = (r1, s1)"
    by (cases "copy_loop_p0 T this \<lparr>nodeptr = next_node oh\<rparr> end_it ?s0")
  have s': "s' = (case r1 of Inl e \<Rightarrow> release_object this s1 | Inr u \<Rightarrow> s1)" and rr: "isl r = isl r1"
    using run r1 b0 oh(3) by (auto simp: SingleLinkedList_copy_p0_def GetSize_def split: sum.splits)
  have out: "\<exists>k. k \<le> length ?fs \<and> free_store s1 = drop k ?fs \<and>
           sizes s1 = (sizes s)(this \<mapsto> n) \<and>
           (\<forall>x. x \<noteq> this \<longrightarrow> x \<notin> set (take k ?fs) \<longrightarrow> nodes s1 x = nodes s x) \<and>
           (case r1 of
              Inr u \<Rightarrow> k = length bs \<and>
                (\<exists>nd'. nodes s1 this = Some nd' \<and> chain s1 (next_node nd') (take k ?fs))
            | Inl e \<Rightarrow> e = BadAlloc \<or> e = CopyThrew)"
    using copy_loop_p0_outcome [OF f0 f(1,2,3) l0 _ c0 _ fb r1] ot
    by (cases r1) (auto simp: init_members_def)
  from copy_ctor_wf_aux [OF inv u o out oh(4) s'] rr show ?thesis by simp
qed

paragraph \<open>Assignment\<close>

lemma swap_unchanged: "swap this other s = (r, s') \<Longrightarrow> s' = s"
  by (auto simp: swap_def split: sum.splits)

lemma unused_live_neq: "unused s tmp \<Longrightarrow> sizes s this \<noteq> None \<Longrightarrow> this \<noteq> tmp"
  by (auto simp: unused_def)

lemma assign_p0_wf:
  assumes inv: "well_formed s" and lt: "sizes s this \<noteq> None" and lr: "sizes s rhs \<noteq> None"
    and u: "unused s tmp" and run: "operator_assign_p0 T this rhs tmp s = (r, s')"
  shows "well_formed s'"
proof (cases "this = rhs")
  case True
  with run inv show ?thesis by (simp add: operator_assign_p0_def)
next
  case False
  obtain r1 s1 where r1: "SingleLinkedList_copy_p0 T tmp rhs s = (r1, s1)"
    by (cases "SingleLinkedList_copy_p0 T tmp rhs s")
  from copy_ctor_p0_wf [OF inv u lr r1]
  have c: "well_formed s1" "\<forall>l. l \<noteq> tmp \<longrightarrow> sizes s1 l = sizes s l" "\<not> isl r1 \<longrightarrow> sizes s1 tmp \<noteq> None"
    by simp_all
  show ?thesis
  proof (cases r1)
    case (Inl e)
    with run r1 False c(1) show ?thesis by (simp add: operator_assign_p0_def)
  next
    case (Inr u1)
    with c have l1: "sizes s1 this \<noteq> None" "sizes s1 tmp \<noteq> None"
      using unused_live_neq [OF u lt] lt by auto
    obtain r2 s2 where r2: "swap_p0 this tmp s1 = (r2, s2)" by (cases "swap_p0 this tmp s1")
    from swap_p0_wf [OF c(1) l1 r2] have w2: "well_formed s2" "dom (sizes s2) = dom (sizes s1)" by simp_all
    then have l2: "sizes s2 tmp \<noteq> None" using l1(2) by (metis domIff)
    show ?thesis
    proof (cases r2)
      case (Inl e)
      with run r1 r2 Inr False w2(1) show ?thesis by (simp add: operator_assign_p0_def)
    next
      case (Inr u2)
      with run r1 r2 \<open>r1 = Inr u1\<close> False have "SingleLinkedList_dtor_p0 tmp s2 = (r, s')"
        by (simp add: operator_assign_p0_def)
      from dtor_wf(2) [OF w2(1) l2 this] show ?thesis .
    qed
  qed
qed

lemma assign_wf:
  assumes inv: "well_formed s" and lt: "sizes s this \<noteq> None" and lr: "sizes s rhs \<noteq> None"
    and u: "unused s tmp" and run: "operator_assign T this rhs tmp s = (r, s')"
  shows "well_formed s'"
proof (cases "this = rhs")
  case True
  with run inv show ?thesis by (simp add: operator_assign_def)
next
  case False
  obtain r1 s1 where r1: "SingleLinkedList_copy T tmp rhs s = (r1, s1)"
    by (cases "SingleLinkedList_copy T tmp rhs s")
  from copy_ctor_wf [OF inv u lr r1]
  have c: "well_formed s1" "\<forall>l. l \<noteq> tmp \<longrightarrow> sizes s1 l = sizes s l" "\<not> isl r1 \<longrightarrow> sizes s1 tmp \<noteq> None"
    by simp_all
  show ?thesis
  proof (cases r1)
    case (Inl e)
    with run r1 False c(1) show ?thesis by (simp add: operator_assign_def)
  next
    case (Inr u1)
    with c have l1: "sizes s1 tmp \<noteq> None" by auto
    obtain r2 s2 where r2: "swap this tmp s1 = (r2, s2)" by (cases "swap this tmp s1")
    from swap_unchanged [OF r2] have s2: "s2 = s1" .
    show ?thesis
    proof (cases r2)
      case (Inl e)
      with run r1 r2 Inr False c(1) s2 show ?thesis by (simp add: operator_assign_def)
    next
      case (Inr u2)
      with run r1 r2 \<open>r1 = Inr u1\<close> False s2 have "SingleLinkedList_dtor tmp s1 = (r, s')"
        by (simp add: operator_assign_def)
      from dtor_wf(1) [OF c(1) l1 this] show ?thesis .
    qed
  qed
qed

paragraph \<open>Reachable stores\<close>

lemma wf_initial:
  "distinct fs \<Longrightarrow> nullptr \<notin> set fs \<Longrightarrow>
   well_formed \<lparr>nodes = Map.empty, sizes = Map.empty, free_store = fs\<rparr>"
  by (auto simp: well_formed_def heap_ok_def elim: is_listD)

lemma reachable_wf: "reachable T s \<Longrightarrow> well_formed s"
proof (induction rule: reachable.induct)
  case (initial fs)
  then show ?case by (rule wf_initial)
next
  case (construct_default s this r s')
  from default_ctor_wf [OF construct_default.IH construct_default.hyps(2,3)] show ?case .
next
  case (construct_init s this vs r s')
  from init_ctor_wf [OF construct_init.IH construct_init.hyps(2,3,4)] show ?case .
next
  case (construct_init_p0 s this vs r s')
  from init_ctor_p0_wf [OF construct_init_p0.IH construct_init_p0.hyps(2,3,4)] show ?case .
next
  case (construct_copy s this other r s')
  from copy_ctor_wf [OF construct_copy.IH construct_copy.hyps(2,3,4), THEN conjunct1] show ?case .
next
  case (construct_copy_p0 s this other r s')
  from copy_ctor_p0_wf [OF construct_copy_p0.IH construct_copy_p0.hyps(2,3,4), THEN conjunct1] show ?case .
next
  case (destroy s this r s')
  from dtor_wf(1) [OF destroy.IH destroy.hyps(2,3)] show ?case .
next
  case (destroy_p0 s this r s')
  from dtor_wf(2) [OF destroy_p0.IH destroy_p0.hyps(2,3)] show ?case .
next
  case (push_front s this v r s')
  from PushFront_wf [OF push_front.IH push_front.hyps(2,3,4)] show ?case .
next
  case (pop_front s this r s')
  from PopFront_wf [OF pop_front.IH pop_front.hyps(2,3,4)] show ?case .
next
  case (pop_front_p0 s this r s')
  from PopFront_p0_wf [OF pop_front_p0.IH pop_front_p0.hyps(2,3,4)] show ?case .
next
  case (insert_after s this as pos v r s')
  from InsertAfter_wf [OF insert_after.IH insert_after.hyps(2,3,4,5)] show ?case .
next
  case (insert_after_p0 s this as pos v r s')
  from InsertAfter_p0_wf [OF insert_after_p0.IH insert_after_p0.hyps(2,3,4,5)] show ?case .
next
  case (erase_after s this as pos r s')
  from EraseAfter_wf [OF erase_after.IH erase_after.hyps(2,3,4,5)] show ?case .
next
  case (erase_after_p0 s this as pos r s')
  from EraseAfter_p0_wf [OF erase_after_p0.IH erase_after_p0.hyps(2,3,4,5)] show ?case .
next
  case (clear s this r s')
  from Clear_wf(1) [OF clear.IH clear.hyps(2,3)] show ?case .
next
  case (clear_p0 s this r s')
  from Clear_wf(2) [OF clear_p0.IH clear_p0.hyps(2,3)] show ?case .
next
  case (swap_lists s this other r s')
  from swap_unchanged [OF swap_lists.hyps(4)] swap_lists.IH show ?case by simp
next
  case (swap_lists_p0 s this other r s')
  from swap_p0_wf [OF swap_lists_p0.IH swap_lists_p0.hyps(2,3,4), THEN conjunct1] show ?case .
next
  case (assign s this rhs tmp r s')
  from assign_wf [OF assign.IH assign.hyps(2,3,4,5)] show ?case .
next
  case (assign_p0 s this rhs tmp r s')
  from assign_p0_wf [OF assign_p0.IH assign_p0.hyps(2,3,4,5)] show ?case .
qed

paragraph \<open>The nodes reachable from the head are the nodes of the chain\<close>

lemma reach_next_subset:
  assumes "load s p = Inr n"
  shows "reach s (next_node n) \<subseteq> reach s p"
proof
  fix x assume "x \<in> reach s (next_node n)"
  then show "x \<in> reach s p"
  proof (induction rule: reach.induct)
    case start
    have "p \<in> reach s p" using assms by (intro reach.start) (simp add: load_Inr_iff)
    from reach.step [OF this assms start] show ?case .
  next
    case (step a m)
    from reach.step [OF step.IH step.hyps(2,3)] show ?case .
  qed
qed

lemma chain_subset_reach: "chain s p as \<Longrightarrow> set as \<subseteq> reach s p"
proof (induction as arbitrary: p)
  case Nil
  then show ?case by simp
next
  case (Cons a as)
  from Cons.prems obtain n where n: "p = a" "a \<noteq> nullptr" "nodes s a = Some n" "chain s (next_node n) as"
    by (auto simp: chain_Cons_iff)
  then have l: "load s a = Inr n" by (simp add: load_Inr_iff)
  have "a \<in> reach s a" using n(2) by (rule reach.start)
  moreover have "set as \<subseteq> reach s a" using Cons.IH [OF n(4)] reach_next_subset [OF l] by blast
  ultimately show ?case using n(1) by simp
qed

lemma chain_next_in:
  "chain s p as \<Longrightarrow> a \<in> set as \<Longrightarrow> load s a = Inr n \<Longrightarrow> next_node n \<noteq> nullptr \<Longrightarrow>
   next_node n \<in> set as"
proof (induction as arbitrary: p)
  case Nil
  then show ?case by simp
next
  case (Cons b bs)
  from Cons.prems(1) obtain m where m: "p = b" "b \<noteq> nullptr" "nodes s b = Some m" "chain s (next_node m) bs"
    by (auto simp: chain_Cons_iff)
  show ?case
  proof (cases "a = b")
    case True
    with m Cons.prems(3) have "n = m" by (simp add: load_Inr_iff)
    with m(4) Cons.prems(4) show ?thesis using chain_hd [OF m(4)] by (cases bs) (auto simp: chain_Cons_iff)
  next
    case False
    with Cons.prems(2) have "a \<in> set bs" by simp
    from Cons.IH [OF m(4) this Cons.prems(3,4)] show ?thesis by simp
  qed
qed

lemma reach_chain: "chain s p as \<Longrightarrow> reach s p = set as"
proof
  assume c: "chain s p as"
  show "set as \<subseteq> reach s p" using c by (rule chain_subset_reach)
  show "reach s p \<subseteq> set as"
  proof
    fix x assume "x \<in> reach s p"
    then show "x \<in> set as"
    proof (induction rule: reach.induct)
      case start
      then show ?case using chain_hd [OF c] c by (cases as) (auto simp: chain_Cons_iff)
    next
      case (step a n)
      from chain_next_in [OF c step.IH step.hyps(2,3)] show ?case .
    qed
  qed
qed

subsection \<open>Reachable stores are well formed\<close>

text \<open>
  C8. In every store that a program reaches (from no list at all, by constructors, the
  destructor and the public operations of either variant, on live lists and with positions of
  the list they are called on), every live list is well formed: the nodes reachable from
  \<^verbatim>\<open>head_.next_node\<close> are the nodes of a chain that ends in the null pointer and visits
  no node twice (it is finite and has no cycle; the last node's \<^verbatim>\<open>next_node\<close> is null),
  \<^verbatim>\<open>GetSize()\<close> is their number, and a traversal ends and meets that many elements.
\<close>

theorem reachable_size_counts_acyclic_chain:
  assumes "reachable T s" and "GetSize this s = Inr n"
  shows "\<exists>h as. load s this = Inr h \<and> chain s (next_node h) as \<and> distinct as \<and>
           reach s (next_node h) = set as \<and> card (reach s (next_node h)) = unat n \<and>
           (as = [] \<or> (\<exists>m. load s (last as) = Inr m \<and> next_node m = nullptr)) \<and>
           (\<exists>vs. traverse this s = Some (Inr vs) \<and> length vs = unat n)"
proof -
  from assms(1) have w: "well_formed s" by (rule reachable_wf)
  from assms(2) have "sizes s this = Some n" by (auto simp: GetSize_def split: option.splits)
  with wf_list [OF w, of this] obtain as where l: "is_list s this as" by auto
  from l obtain h n' where h: "load s this = Inr h" "chain s (next_node h) as"
    "sizes s this = Some n'" "unat n' = length as" by (rule is_listD)
  with \<open>sizes s this = Some n\<close> have n: "unat n = length as" by simp
  have d: "distinct as" using h(2) by (rule chain_distinct)
  have r: "reach s (next_node h) = set as" using h(2) by (rule reach_chain)
  have c: "card (reach s (next_node h)) = unat n" using r d n by (simp add: distinct_card)
  have e: "as = [] \<or> (\<exists>m. load s (last as) = Inr m \<and> next_node m = nullptr)"
  proof (cases "as = []")
    case False
    from chain_last_next [OF h(2) False] obtain m where "nodes s (last as) = Some m" "next_node m = nullptr"
      by blast
    moreover have "last as \<noteq> nullptr" using chain_not_null [OF h(2)] False by (metis last_in_set)
    ultimately show ?thesis by (auto simp: load_Inr_iff)
  qed simp
  have t: "traverse this s = Some (Inr (contents s as))" using l by (rule traverse_is_list)
  show ?thesis
    using h(1,2) d r c e t n by (auto simp: contents_def)
qed

theorem reachable_size_counts_acyclic_chain_witness:
  "reachable int_Type two_lists \<and> GetSize 2 two_lists = Inr 3 \<and>
   (\<exists>h as. load two_lists 2 = Inr h \<and> chain two_lists (next_node h) as \<and> distinct as \<and>
           reach two_lists (next_node h) = set as \<and> card (reach two_lists (next_node h)) = unat (3 :: size_t) \<and>
           (as = [] \<or> (\<exists>m. load two_lists (last as) = Inr m \<and> next_node m = nullptr)) \<and>
           (\<exists>vs. traverse 2 two_lists = Some (Inr vs) \<and> length vs = unat (3 :: size_t)))"
proof -
  let ?s0 = "\<lparr>nodes = Map.empty, sizes = Map.empty, free_store = [3, 4, 5, 6, 7, 8]\<rparr> :: int state"
  let ?s1 = "snd (SingleLinkedList_init int_Type 1 [1, 2] ?s0)"
  have r0: "reachable int_Type ?s0"
    by (rule reachable.initial) (simp_all add: nullptr_def)
  have u0: "unused ?s0 1" by (simp add: unused_def nullptr_def)
  have e1: "SingleLinkedList_init int_Type 1 [1, 2] ?s0 = (Inr (), ?s1)"
    by (simp add: run_defs)
  have r1: "reachable int_Type ?s1"
    by (rule reachable.construct_init [OF r0 u0 e1]) (simp add: completes_def)
  have u1: "unused ?s1 2" by (simp add: unused_def run_defs)
  have e2: "SingleLinkedList_init int_Type 2 [1, 2, 3] ?s1 = (Inr (), two_lists)"
    unfolding two_lists_def by (simp add: run_defs)
  have r2: "reachable int_Type two_lists"
    by (rule reachable.construct_init [OF r1 u1 e2]) (simp add: completes_def)
  have g: "GetSize 2 two_lists = Inr 3" by (simp add: two_lists_eq GetSize_def)
  from reachable_size_counts_acyclic_chain [OF r2 g] r2 g show ?thesis by simp
qed

end
